theory Spec2Isabelle
  imports Main
begin

section \<open>The Worldvious client: data model\<close>

text \<open>
  The development embeds the class \<^verbatim>\<open>WorldviousClient\<close> of the newest revision of the
  client (the second file of \<^verbatim>\<open>src/unnamed/part_001\<close>, lines 494 to 969; the revision
  that matches \<^verbatim>\<open>package.json\<close>, which depends on \<^verbatim>\<open>@kubevious/http-client\<close>).
  The older revisions (\<^verbatim>\<open>src/src/index.ts\<close>, \<^verbatim>\<open>src/unnamed/part_000\<close> and the first file of
  \<^verbatim>\<open>part_001\<close>) are earlier states of the same class.

  The client is an object that is mutated by calls of the host, by timers and by promise
  continuations. The model is a record of the object's fields, extended by the environment
  the code reads (the process environment, the clock, the HTTP client) and by logs of what
  the code did (the posts handed to the HTTP client, the job bodies invoked, the hooks and
  listeners called). Each call and each callback is a function from state to state; what
  JavaScript runs later (a timer, the continuation of a promise, the arrival of an HTTP
  response) is an event of its own.
\<close>

datatype ReportActions = VersionCheck | ReportError | ReportCounters | ReportMetrics

text \<open>Opaque host data (counters, metrics, the answers of a feedback form).\<close>

datatype json = JNull | JBool bool | JNum int | JStr string | JArr "json list"
  | JObj "(string \<times> json) list"

text \<open>
  The items of a version-check response (\<^verbatim>\<open>WorldviousVersionInfoResult.notifications\<close>).
  A question is its id, kind, text and options.
\<close>

datatype NotificationItem =
    NewVersion string string string "string list" "string list"
  | FeedbackRequest string "(string \<times> string \<times> string \<times> string option) list"
  | Message string

text \<open>
  The value handed to \<^verbatim>\<open>acceptError(error: any)\<close>, as far as \<^verbatim>\<open>_getErrorString\<close> looks
  at it: \<^verbatim>\<open>null\<close> or \<^verbatim>\<open>undefined\<close>, or a value with its \<^verbatim>\<open>stack\<close> property (absent for a
  thrown string or number) and the result of its \<^verbatim>\<open>toString()\<close>.
\<close>

datatype ErrorValue = Nullish | Thrown "string option" string

text \<open>
  A JavaScript number, as far as the class meets one: \<^verbatim>\<open>NaN\<close>, an infinity, or a double
  whose value is an integer (the intervals written in the source, the results of
  \<^verbatim>\<open>Number.parseInt\<close>, and their products with 1000). \<open>Finite i\<close> is the double of value
  \<open>i\<close>; the two zeros are one value here, as they are for \<^verbatim>\<open>setTimeout\<close>.
\<close>

datatype Number = NaN | Finite int | Infinity | NegInfinity

record JobConfig =
  enabled :: bool
  delaySeconds :: Number
  disableEnvName :: string
  overrideEnvName :: string
  shouldStartImmediately :: bool

text \<open>
  The two closures of a \<^verbatim>\<open>JobInfo\<close> are named by tags: \<^verbatim>\<open>cb\<close> is one of the four job
  bodies, \<^verbatim>\<open>preScheduleCb\<close> is absent or the closure that resets \<^verbatim>\<open>isFirstErrorReported\<close>.
\<close>

datatype Hook = ResetFirstError

record JobInfo =
  jobName :: ReportActions
  seconds :: Number
  cb :: ReportActions
  preScheduleCb :: "Hook option"

record ErrorInfo =
  error :: string
  count :: nat

text \<open>
  The JSON bodies the client posts, one constructor per shape built in the source. The
  first two fields of the job bodies are the \<^verbatim>\<open>id\<close> and \<^verbatim>\<open>process\<close> that \<^verbatim>\<open>_makeNewData\<close>
  fills in; a feedback body is \<^verbatim>\<open>{id, feedbackId, answers}\<close>.
\<close>

datatype Body =
    VersionData "string option" string string
  | ErrorData "string option" string string string nat
  | CountersData "string option" string json
  | MetricsData "string option" string json
  | FeedbackData string string json

record Request =
  url :: string
  payload :: Body

text \<open>
  A timer created by \<^verbatim>\<open>setTimeout(f, job.seconds * 1000)\<close>: the clock when it was armed and
  the delay the code asked for, in milliseconds.
\<close>

record Timer =
  armedAt :: nat
  delayMs :: Number

text \<open>
  What is waiting to run:
  \<^item> \<open>InitSchedule\<close>: the continuation of \<^verbatim>\<open>init()\<close> that calls \<^verbatim>\<open>_schedule()\<close>;
  \<^item> \<open>InitJobs ns\<close>: the serial walk of \<^verbatim>\<open>init()\<close> over the job names still to visit;
  \<^item> \<open>Exec n rest awaiting\<close>: an execution of the body of job \<open>n\<close> in flight. With
    \<open>awaiting\<close> a post is awaiting its response and \<open>rest\<close> are the error payloads
    still to send after it; without, the body's promise is settled and the final
    continuation of the handler (clear the flag, re-arm) is queued;
  \<^item> \<open>Notify l\<close>: the call of listener \<open>l\<close> queued by \<^verbatim>\<open>_trigger\<close>;
  \<^item> \<open>Feedback\<close>: the post of \<^verbatim>\<open>reportFeedback\<close> awaiting its response.
\<close>

datatype Task =
    InitSchedule
  | InitJobs "ReportActions list"
  | Exec ReportActions "Body list" bool
  | Notify nat
  | Feedback

record Client =
  name :: string
  version :: string
  clientEnabled :: bool
  clientId :: "string option"
  closed :: bool
  isFirstErrorReported :: bool
  jobConfigs :: "ReportActions \<Rightarrow> JobConfig"
  timers :: "ReportActions \<Rightarrow> Timer option"
  jobs :: "ReportActions \<Rightarrow> JobInfo option"
  jobRuntime :: "ReportActions \<Rightarrow> bool option"
  counters :: json
  metrics :: json
  errors :: "(string \<times> ErrorInfo) list"
  versionCheckResult :: "NotificationItem list"
  listeners :: "nat list"
  env :: "string \<Rightarrow> string option"
  now :: nat
  postThrows :: bool
  pending :: "Task list"
  requests :: "Request list"
  started :: "ReportActions list"
  hookCalls :: "ReportActions list"
  delivered :: "(nat \<times> NotificationItem list) list"
  initCalls :: nat

text \<open>
  The fields from \<open>name\<close> to \<open>listeners\<close> are the fields of the class
  (\<open>clientEnabled\<close> is \<^verbatim>\<open>this.enabled\<close>, \<open>clientId\<close> is \<^verbatim>\<open>this.id\<close>,
  \<open>jobRuntime n\<close> is \<^verbatim>\<open>this.jobRuntime[n].isRunning\<close>; listeners are named by numbers).
  \<open>errors\<close> lists the own properties of \<^verbatim>\<open>this.errors\<close> in the order of their
  creation; the order in which \<^verbatim>\<open>_.values\<close> enumerates them is \<open>ownEntries\<close> below.
  The environment: \<open>env\<close> is \<^verbatim>\<open>process.env\<close>, \<open>now\<close> the clock in milliseconds,
  \<open>postThrows\<close> says that the HTTP client raises synchronously when asked to post instead
  of returning a promise. The logs: \<open>requests\<close> is every call of the HTTP client's
  \<^verbatim>\<open>post\<close> in order, \<open>started\<close> every invocation \<^verbatim>\<open>job.cb()\<close>, \<open>hookCalls\<close> every
  invocation of a \<^verbatim>\<open>preScheduleCb\<close>, \<open>delivered\<close> every call of a listener with the
  state it was given, \<open>initCalls\<close> the number of calls of \<^verbatim>\<open>init()\<close>.
\<close>

section \<open>JavaScript primitives the class relies on\<close>

text \<open>A string from the environment is truthy when it is defined and not empty.\<close>

definition truthy :: "string option \<Rightarrow> bool" where
  "truthy v = (case v of None \<Rightarrow> False | Some s \<Rightarrow> s \<noteq> [])"

text \<open>
  The double nearest to an integer, ties to the even significand (the conversion of a
  mathematical value to a Number). Below \<open>2 ^ 53\<close> every integer is a double. Above, the
  doubles are the multiples of a power of two, \<open>ulp m\<close>, that leaves 53 significant bits;
  what rounds to \<open>2 ^ 1024\<close> or more is an infinity.
\<close>

function ulp :: "nat \<Rightarrow> nat" where
  "ulp m = (if m < 2 ^ 53 then 1 else 2 * ulp (m div 2))"
  by pat_completeness auto
termination
  by (relation "measure (\<lambda>m. m)") auto

declare ulp.simps [simp del]

definition roundNat :: "nat \<Rightarrow> nat" where
  "roundNat m =
     (let u = ulp m; q = m div u; r = m mod u
      in if 2 * r < u \<or> (2 * r = u \<and> even q) then q * u else (q + 1) * u)"

definition toNumber :: "int \<Rightarrow> Number" where
  "toNumber i =
     (let m = roundNat (nat \<bar>i\<bar>)
      in if 2 ^ 1024 \<le> m then (if i < 0 then NegInfinity else Infinity)
         else Finite (if i < 0 then - int m else int m))"

text \<open>The product of two numbers: the exact product, rounded.\<close>

definition negative :: "Number \<Rightarrow> bool" where
  "negative a = (case a of Finite x \<Rightarrow> x < 0 | NegInfinity \<Rightarrow> True | _ \<Rightarrow> False)"

definition multiply :: "Number \<Rightarrow> Number \<Rightarrow> Number" where
  "multiply a b =
     (if a = NaN \<or> b = NaN then NaN
      else case (a, b) of
             (Finite x, Finite y) \<Rightarrow> toNumber (x * y)
           | _ \<Rightarrow> if a = Finite 0 \<or> b = Finite 0 then NaN
                  else if negative a = negative b then Infinity else NegInfinity)"

definition isNaN :: "Number \<Rightarrow> bool" where
  "isNaN a = (a = NaN)"

text \<open>
  \<^verbatim>\<open>Number.parseInt(s)\<close> without a radix, after ECMAScript: leading white space is
  skipped, a sign is read, a prefix \<^verbatim>\<open>0x\<close> selects radix 16, and the longest prefix of
  digits of the radix is read, whatever follows it; the result is the double nearest to
  the signed value of these digits, and \<^verbatim>\<open>NaN\<close> when there is no digit. (Past twenty
  significant decimal digits ECMAScript lets an implementation round the digits first;
  the engine of Node does not.) A string is a list of code units below 256, among which
  the white space is tab, line feed, vertical tab, form feed, carriage return, space and
  no-break space.
\<close>

definition isWhiteSpace :: "char \<Rightarrow> bool" where
  "isWhiteSpace c = (of_char c \<in> {9, 10, 11, 12, 13, 32, 160 :: nat})"

definition digitValue :: "char \<Rightarrow> nat option" where
  "digitValue c =
     (let n = (of_char c :: nat) in
      if 48 \<le> n \<and> n \<le> 57 then Some (n - 48)
      else if 97 \<le> n \<and> n \<le> 122 then Some (n - 87)
      else if 65 \<le> n \<and> n \<le> 90 then Some (n - 55)
      else None)"

definition isDigitOf :: "nat \<Rightarrow> char \<Rightarrow> bool" where
  "isDigitOf radix c = (case digitValue c of None \<Rightarrow> False | Some d \<Rightarrow> d < radix)"

definition digitsValue :: "nat \<Rightarrow> string \<Rightarrow> nat" where
  "digitsValue radix ds =
     foldl (\<lambda>acc c. acc * radix + (case digitValue c of None \<Rightarrow> 0 | Some d \<Rightarrow> d)) 0 ds"

definition parseInt :: "string \<Rightarrow> Number" where
  "parseInt str =
     (let s0 = dropWhile isWhiteSpace str;
          minus = (s0 \<noteq> [] \<and> hd s0 = CHR ''-'');
          s1 = (if s0 \<noteq> [] \<and> (hd s0 = CHR ''-'' \<or> hd s0 = CHR ''+'') then tl s0 else s0);
          hex = (take 2 s1 = ''0x'' \<or> take 2 s1 = ''0X'');
          radix = (if hex then 16 else 10);
          s2 = (if hex then drop 2 s1 else s1);
          z = takeWhile (isDigitOf radix) s2
      in if z = [] then NaN
         else toNumber ((if minus then - 1 else 1) * int (digitsValue radix z)))"

text \<open>
  The own properties of a plain object in the order in which \<^verbatim>\<open>Object.keys\<close>, and with it
  \<^verbatim>\<open>_.keys\<close> and \<^verbatim>\<open>_.values\<close>, enumerate them: first the keys that are array indices (the
  decimal numeral, without leading zero, of a number below \<open>2 ^ 32 - 1\<close>) in ascending
  numeric order, then the other keys in the order of their creation.
\<close>

definition arrayIndex :: "string \<Rightarrow> nat option" where
  "arrayIndex k =
     (if k \<noteq> [] \<and> list_all (isDigitOf 10) k \<and> (length k = 1 \<or> hd k \<noteq> CHR ''0'')
         \<and> digitsValue 10 k < 2 ^ 32 - 1
      then Some (digitsValue 10 k) else None)"

definition ownEntries :: "(string \<times> 'a) list \<Rightarrow> (string \<times> 'a) list" where
  "ownEntries ps =
     sort_key (\<lambda>p. the (arrayIndex (fst p))) (filter (\<lambda>p. arrayIndex (fst p) \<noteq> None) ps)
     @ filter (\<lambda>p. arrayIndex (fst p) = None) ps"

text \<open>
  \<^verbatim>\<open>this.errors\<close> is a plain object literal, so \<^verbatim>\<open>this.errors[key]\<close> also finds the
  properties of \<^verbatim>\<open>Object.prototype\<close>; each of them is a truthy value.
\<close>

definition objectPrototypeKeys :: "string list" where
  "objectPrototypeKeys =
     [''constructor'', ''__defineGetter__'', ''__defineSetter__'', ''hasOwnProperty'',
      ''__lookupGetter__'', ''__lookupSetter__'', ''isPrototypeOf'',
      ''propertyIsEnumerable'', ''toString'', ''valueOf'', ''__proto__'',
      ''toLocaleString'']"

section \<open>Construction and registration\<close>

definition defaultConfig :: "ReportActions \<Rightarrow> JobConfig" where
  "defaultConfig n =
     (case n of
        VersionCheck \<Rightarrow> \<lparr>enabled = True, delaySeconds = Finite (60 * 60),
          disableEnvName = ''WORLDVIOUS_VERSION_CHECK_DISABLE'',
          overrideEnvName = ''WORLDVIOUS_VERSION_CHECK_TIMEOUT'',
          shouldStartImmediately = True\<rparr>
      | ReportError \<Rightarrow> \<lparr>enabled = True, delaySeconds = Finite (1 * 60),
          disableEnvName = ''WORLDVIOUS_ERROR_REPORT_DISABLE'',
          overrideEnvName = ''WORLDVIOUS_ERROR_REPORT_TIMEOUT'',
          shouldStartImmediately = False\<rparr>
      | ReportCounters \<Rightarrow> \<lparr>enabled = True, delaySeconds = Finite (60 * 60),
          disableEnvName = ''WORLDVIOUS_COUNTERS_REPORT_DISABLE'',
          overrideEnvName = ''WORLDVIOUS_COUNTERS_REPORT_TIMEOUT'',
          shouldStartImmediately = False\<rparr>
      | ReportMetrics \<Rightarrow> \<lparr>enabled = True, delaySeconds = Finite (60 * 60),
          disableEnvName = ''WORLDVIOUS_METRICS_REPORT_DISABLE'',
          overrideEnvName = ''WORLDVIOUS_METRICS_REPORT_TIMEOUT'',
          shouldStartImmediately = False\<rparr>)"

text \<open>The keys of \<^verbatim>\<open>this.jobConfigs\<close>, in the order the constructor inserts them.\<close>

definition jobNames :: "ReportActions list" where
  "jobNames = [VersionCheck, ReportError, ReportCounters, ReportMetrics]"

text \<open>
  The constructor. \<open>e\<close> is the process environment, \<open>nm\<close> and \<open>ver\<close> are the arguments
  \<^verbatim>\<open>name\<close> and \<^verbatim>\<open>version\<close>.
\<close>

definition construct :: "(string \<Rightarrow> string option) \<Rightarrow> string \<Rightarrow> string \<Rightarrow> Client" where
  "construct e nm ver =
     (let ident = e ''WORLDVIOUS_ID'';
          en0 = True;
          en1 = (if en0 then (if \<not> truthy ident then False else en0) else en0);
          en2 = (if en1 then (if \<not> truthy (e ''WORLDVIOUS_URL'') then False else en1) else en1);
          configure = (\<lambda>c. if \<not> en2 then c\<lparr>enabled := False\<rparr>
                            else if truthy (e (disableEnvName c)) then c\<lparr>enabled := False\<rparr>
                            else c)
      in \<lparr>name = nm, version = ver, clientEnabled = en2, clientId = ident, closed = False,
          isFirstErrorReported = False,
          jobConfigs = (\<lambda>n. configure (defaultConfig n)),
          timers = (\<lambda>n. None), jobs = (\<lambda>n. None), jobRuntime = (\<lambda>n. None),
          counters = JArr [], metrics = JArr [], errors = [],
          versionCheckResult = [], listeners = [],
          env = e, now = 0, postThrows = False, pending = [], requests = [],
          started = [], hookCalls = [], delivered = [], initCalls = 0\<rparr>)"

text \<open>\<^verbatim>\<open>_register(name, cb, preScheduleCb)\<close>; the body \<^verbatim>\<open>cb\<close> is the one of the job itself.\<close>

definition register :: "ReportActions \<Rightarrow> Hook option \<Rightarrow> Client \<Rightarrow> Client" where
  "register n hook s =
     (let config = jobConfigs s n in
      if \<not> enabled config then s
      else
        let secs =
              (if overrideEnvName config \<noteq> [] then
                 (case env s (overrideEnvName config) of
                    None \<Rightarrow> delaySeconds config
                  | Some overrideValue \<Rightarrow>
                      if overrideValue \<noteq> [] then
                        (let parsed = parseInt overrideValue
                         in if \<not> isNaN parsed then parsed else delaySeconds config)
                      else delaySeconds config)
               else delaySeconds config)
        in s\<lparr>jobs := (jobs s)(n := Some \<lparr>jobName = n, seconds = secs, cb = n,
                                          preScheduleCb = hook\<rparr>),
              jobRuntime := (jobRuntime s)(n := Some False)\<rparr>)"

definition schedule :: "Client \<Rightarrow> Client" where
  "schedule s =
     register ReportMetrics None
       (register ReportCounters None
         (register ReportError (Some ResetFirstError)
           (register VersionCheck None s)))"

section \<open>The HTTP boundary and the job bodies\<close>

definition fullUrl :: "Client \<Rightarrow> string \<Rightarrow> string" where
  "fullUrl s u =
     (case env s ''WORLDVIOUS_URL'' of None \<Rightarrow> ''undefined'' | Some b \<Rightarrow> b) @ ''/'' @ u"

text \<open>
  \<^verbatim>\<open>_request(url, data)\<close> hands the post to the HTTP client. Whether the client returns a
  promise or raises is \<open>postThrows\<close>, which the callers test.
\<close>

definition request :: "string \<Rightarrow> Body \<Rightarrow> Client \<Rightarrow> Client" where
  "request u d s = s\<lparr>requests := requests s @ [\<lparr>url = fullUrl s u, payload = d\<rparr>]\<rparr>"

text \<open>
  What the invocation \<^verbatim>\<open>job.cb()\<close> does: it raises, or it returns (a promise or
  \<^verbatim>\<open>undefined\<close>), leaving an execution in flight as in \<open>Exec\<close>.
\<close>

datatype BodyResult = Raised | Returned "Body list" bool

definition checkVersion :: "Client \<Rightarrow> Client \<times> BodyResult" where
  "checkVersion s =
     (request ''report/version'' (VersionData (clientId s) (name s) (version s)) s,
      if postThrows s then Raised else Returned [] True)"

definition reportCounters :: "Client \<Rightarrow> Client \<times> BodyResult" where
  "reportCounters s =
     (request ''report/counters'' (CountersData (clientId s) (name s) (counters s)) s,
      if postThrows s then Raised else Returned [] True)"

definition reportMetrics :: "Client \<Rightarrow> Client \<times> BodyResult" where
  "reportMetrics s =
     (request ''report/metrics'' (MetricsData (clientId s) (name s) (metrics s)) s,
      if postThrows s then Raised else Returned [] True)"

text \<open>The payloads of \<^verbatim>\<open>_reportError\<close>, one per element of \<^verbatim>\<open>_.values(this.errors)\<close>.\<close>

definition errorPayloads :: "Client \<Rightarrow> Body list" where
  "errorPayloads s =
     map (\<lambda>(k, info). ErrorData (clientId s) (name s) (version s) (error info) (count info))
       (ownEntries (errors s))"

text \<open>
  Modelled from the spec: \<^verbatim>\<open>MyPromise.serial\<close> of the package \<^verbatim>\<open>the-promise\<close>, which is not
  among the sources. It sends the payloads one after the other, each after the response
  to the one before; a failed send rejects the whole promise. \<open>serial\<close> sends the first
  payload, the later ones are sent by \<open>response\<close> below.
\<close>

definition serial :: "Body list \<Rightarrow> Client \<Rightarrow> Client \<times> BodyResult" where
  "serial ps s =
     (case ps of
        [] \<Rightarrow> (s, Returned [] False)
      | p # rest \<Rightarrow>
          (request ''report/error'' p s,
           if postThrows s then Returned [] False else Returned rest True))"

definition reportError :: "Client \<Rightarrow> Client \<times> BodyResult" where
  "reportError s =
     (if errors s = [] then (s, Returned [] False)
      else serial (errorPayloads s) (s\<lparr>errors := []\<rparr>))"

definition jobBody :: "ReportActions \<Rightarrow> Client \<Rightarrow> Client \<times> BodyResult" where
  "jobBody n s =
     (case n of
        VersionCheck \<Rightarrow> checkVersion s
      | ReportError \<Rightarrow> reportError s
      | ReportCounters \<Rightarrow> reportCounters s
      | ReportMetrics \<Rightarrow> reportMetrics s)"

section \<open>The scheduler\<close>

definition stopScheduledJob :: "ReportActions \<Rightarrow> Client \<Rightarrow> Client" where
  "stopScheduledJob n s =
     (case timers s n of None \<Rightarrow> s | Some t \<Rightarrow> s\<lparr>timers := (timers s)(n := None)\<rparr>)"

definition runHook :: "Hook \<Rightarrow> Client \<Rightarrow> Client" where
  "runHook h s = (case h of ResetFirstError \<Rightarrow> s\<lparr>isFirstErrorReported := False\<rparr>)"

text \<open>The branch of \<^verbatim>\<open>_runJob\<close> for \<^verbatim>\<open>executeNow = false\<close>.\<close>

definition armTimer :: "ReportActions \<Rightarrow> JobInfo \<Rightarrow> Client \<Rightarrow> Client" where
  "armTimer n job s =
     (if timers s n = None then
        let s1 = (case preScheduleCb job of
                    None \<Rightarrow> s
                  | Some h \<Rightarrow> (runHook h s)\<lparr>hookCalls := hookCalls s @ [n]\<rparr>)
        in s1\<lparr>timers := (timers s1)(n := Some \<lparr>armedAt = now s1,
                                                 delayMs = multiply (seconds job) (Finite 1000)\<rparr>)\<rparr>
      else s)"

text \<open>
  \<^verbatim>\<open>_runJob\<close> and the closure \<^verbatim>\<open>handler\<close> call each other; the recursion is unrolled:
  \<open>runJobLater n\<close> is the call \<^verbatim>\<open>this._runJob(name, false)\<close> that the handler makes, and
  \<open>runJob n False\<close> is proved equal to it below.

  The handler: with \<^verbatim>\<open>isRunning\<close> set it only asks for a timer. Otherwise it sets the flag
  and invokes the body inside \<^verbatim>\<open>try\<close>. When the invocation returns, the chain
  \<^verbatim>\<open>then/catch/then\<close> is attached, whose last step (\<open>complete\<close> below) runs once the
  body's promise is settled: the execution is in flight until then. When the invocation
  raises, the \<^verbatim>\<open>catch\<close> branch logs and returns a resolved promise: the state stays as
  the body left it, with the flag set. (\<^verbatim>\<open>jobRuntime[name]\<close> exists whenever the handler
  runs, see \<open>wfJob\<close>; the model leaves the state alone otherwise.)
\<close>

definition runJobLater :: "ReportActions \<Rightarrow> Client \<Rightarrow> Client" where
  "runJobLater n s =
     (if closed s then s
      else if \<not> enabled (jobConfigs s n) then s
      else case jobs s n of
             None \<Rightarrow> s
           | Some job \<Rightarrow> armTimer n job s)"

definition handler :: "ReportActions \<Rightarrow> JobInfo \<Rightarrow> Client \<Rightarrow> Client" where
  "handler n job s =
     (case jobRuntime s n of
        None \<Rightarrow> s
      | Some isRunning \<Rightarrow>
          if isRunning then runJobLater n s
          else
            (case jobBody (cb job) (s\<lparr>jobRuntime := (jobRuntime s)(n := Some True),
                                        started := started s @ [n]\<rparr>) of
               (s2, Raised) \<Rightarrow> s2
             | (s2, Returned rest awaiting) \<Rightarrow>
                 s2\<lparr>pending := pending s2 @ [Exec n rest awaiting]\<rparr>))"

definition runJob :: "ReportActions \<Rightarrow> bool \<Rightarrow> Client \<Rightarrow> Client" where
  "runJob n executeNow s =
     (if closed s then s
      else if \<not> enabled (jobConfigs s n) then s
      else case jobs s n of
             None \<Rightarrow> s
           | Some job \<Rightarrow>
               if executeNow then handler n job (stopScheduledJob n s)
               else armTimer n job s)"

section \<open>The public operations\<close>

definition getErrorString :: "ErrorValue \<Rightarrow> string" where
  "getErrorString e =
     (case e of
        Nullish \<Rightarrow> ''UNDEFINED ERROR''
      | Thrown stack str \<Rightarrow> if truthy stack then the stack else str)"

text \<open>
  The update of \<^verbatim>\<open>this.errors\<close> in \<^verbatim>\<open>acceptError\<close>. The test \<^verbatim>\<open>if (this.errors[errorStr])\<close>
  succeeds for an own property and for a name inherited from \<^verbatim>\<open>Object.prototype\<close>; in
  the second case the assignment to \<^verbatim>\<open>.count\<close> lands on the inherited object and
  \<^verbatim>\<open>this.errors\<close> gets no property.
\<close>

definition recordError :: "string \<Rightarrow> (string \<times> ErrorInfo) list \<Rightarrow> (string \<times> ErrorInfo) list" where
  "recordError k errs =
     (case map_of errs k of
        Some info \<Rightarrow>
          map (\<lambda>(k', i). if k' = k then (k', i\<lparr>count := count i + 1\<rparr>) else (k', i)) errs
      | None \<Rightarrow>
          if k \<in> set objectPrototypeKeys then errs
          else errs @ [(k, \<lparr>error = k, count = 1\<rparr>)])"

definition acceptError :: "ErrorValue \<Rightarrow> Client \<Rightarrow> Client" where
  "acceptError e s =
     (let errorStr = getErrorString e;
          s1 = s\<lparr>errors := recordError errorStr (errors s)\<rparr>
      in if \<not> isFirstErrorReported s1
         then runJob ReportError True (s1\<lparr>isFirstErrorReported := True\<rparr>)
         else s1)"

definition acceptCounters :: "json \<Rightarrow> Client \<Rightarrow> Client" where
  "acceptCounters v s = s\<lparr>counters := v\<rparr>"

definition acceptMetrics :: "json \<Rightarrow> Client \<Rightarrow> Client" where
  "acceptMetrics v s = s\<lparr>metrics := v\<rparr>"

definition reportFeedback :: "string \<Rightarrow> json \<Rightarrow> Client \<Rightarrow> Client" where
  "reportFeedback feedbackId answers s =
     (if \<not> truthy (clientId s) then s
      else
        let s1 = request ''report/feedback''
                   (FeedbackData (the (clientId s)) feedbackId answers) s
        in if postThrows s then s1 else s1\<lparr>pending := pending s1 @ [Feedback]\<rparr>)"

text \<open>
  \<^verbatim>\<open>_trigger(cb)\<close> calls the listener in a continuation of \<^verbatim>\<open>Promise.resolve(null)\<close>, that
  is, later: it queues the call. What the listener returns or raises is caught and logged.
\<close>

definition trigger :: "nat \<Rightarrow> Client \<Rightarrow> Client" where
  "trigger l s = s\<lparr>pending := pending s @ [Notify l]\<rparr>"

definition onNotificationsChanged :: "nat \<Rightarrow> Client \<Rightarrow> Client" where
  "onNotificationsChanged l s = trigger l (s\<lparr>listeners := listeners s @ [l]\<rparr>)"

definition activateNewVersionInfo :: "NotificationItem list \<Rightarrow> Client \<Rightarrow> Client" where
  "activateNewVersionInfo ns s =
     foldl (\<lambda>acc l. trigger l acc) (s\<lparr>versionCheckResult := ns\<rparr>) (listeners s)"

definition init :: "Client \<Rightarrow> Client" where
  "init s = s\<lparr>pending := pending s @ [InitSchedule], initCalls := Suc (initCalls s)\<rparr>"

definition close :: "Client \<Rightarrow> Client" where
  "close s = s\<lparr>closed := True, timers := (\<lambda>n. None)\<rparr>"

section \<open>Timers, responses and continuations\<close>

text \<open>
  The result of a post: the promise resolves with the response data (for a version check
  its \<^verbatim>\<open>notifications\<close>, \<open>None\<close> when the data has no such list) or is rejected.
\<close>

datatype Outcome = Resolved "NotificationItem list option" | Rejected

definition dropTask :: "nat \<Rightarrow> Client \<Rightarrow> Client" where
  "dropTask i s = s\<lparr>pending := take i (pending s) @ drop (Suc i) (pending s)\<rparr>"

definition setTask :: "nat \<Rightarrow> Task \<Rightarrow> Client \<Rightarrow> Client" where
  "setTask i t s = s\<lparr>pending := (pending s)[i := t]\<rparr>"

text \<open>
  The callback of \<^verbatim>\<open>setTimeout\<close>: it deletes the timer and calls the handler. The
  closure holds the \<^verbatim>\<open>JobInfo\<close> read when the timer was armed; it is the one registered
  now, since \<^verbatim>\<open>_register\<close> stores the same record for a name every time.
\<close>

definition timerFire :: "ReportActions \<Rightarrow> Client \<Rightarrow> Client" where
  "timerFire n s =
     (case timers s n of
        None \<Rightarrow> s
      | Some t \<Rightarrow>
          (case jobs s n of
             None \<Rightarrow> s\<lparr>timers := (timers s)(n := None)\<rparr>
           | Some job \<Rightarrow> handler n job (s\<lparr>timers := (timers s)(n := None)\<rparr>)))"

text \<open>
  The response to the post that pending task \<open>i\<close> awaits. A version check activates the
  notifications; an error flush sends its next payload; then the body's promise is
  settled (\<open>Exec n [] False\<close>), resolved or rejected alike, since the handler logs either.
\<close>

definition response :: "nat \<Rightarrow> Outcome \<Rightarrow> Client \<Rightarrow> Client" where
  "response i out s =
     (if i < length (pending s) then
        (case pending s ! i of
           Exec n rest awaiting \<Rightarrow>
             if \<not> awaiting then s
             else
               (case n of
                  VersionCheck \<Rightarrow>
                    (case out of
                       Resolved (Some ns) \<Rightarrow>
                         setTask i (Exec n [] False) (activateNewVersionInfo ns s)
                     | Resolved None \<Rightarrow> setTask i (Exec n [] False) s
                     | Rejected \<Rightarrow> setTask i (Exec n [] False) s)
                | ReportError \<Rightarrow>
                    (case out of
                       Resolved r \<Rightarrow>
                         (case rest of
                            [] \<Rightarrow> setTask i (Exec n [] False) s
                          | p # ps \<Rightarrow>
                              setTask i (if postThrows s then Exec n [] False else Exec n ps True)
                                (request ''report/error'' p s))
                     | Rejected \<Rightarrow> setTask i (Exec n [] False) s)
                | ReportCounters \<Rightarrow> setTask i (Exec n [] False) s
                | ReportMetrics \<Rightarrow> setTask i (Exec n [] False) s)
         | Feedback \<Rightarrow> dropTask i s
         | InitSchedule \<Rightarrow> s
         | InitJobs ns \<Rightarrow> s
         | Notify l \<Rightarrow> s)
      else s)"

text \<open>The last continuation of the handler: clear the flag and call \<^verbatim>\<open>_runJob(name, false)\<close>.\<close>

definition complete :: "ReportActions \<Rightarrow> Client \<Rightarrow> Client" where
  "complete n s = runJob n False (s\<lparr>jobRuntime := (jobRuntime s)(n := Some False)\<rparr>)"

text \<open>
  Pending task \<open>i\<close> runs. The serial walk of \<^verbatim>\<open>init()\<close> visits one job name per step;
  the model lets it go on at any later moment, among them the moment the promise it
  waits for is settled.
\<close>

definition continue :: "nat \<Rightarrow> Client \<Rightarrow> Client" where
  "continue i s =
     (if i < length (pending s) then
        (case pending s ! i of
           InitSchedule \<Rightarrow> setTask i (InitJobs jobNames) (schedule s)
         | InitJobs ns \<Rightarrow>
             (case ns of
                [] \<Rightarrow> dropTask i s
              | n # rest \<Rightarrow>
                  runJob n (shouldStartImmediately (jobConfigs s n))
                    (setTask i (InitJobs rest) s))
         | Exec n rest awaiting \<Rightarrow> if awaiting then s else complete n (dropTask i s)
         | Notify l \<Rightarrow>
             (dropTask i s)\<lparr>delivered := delivered s @ [(l, versionCheckResult s)]\<rparr>
         | Feedback \<Rightarrow> s)
      else s)"

section \<open>Events and runs\<close>

text \<open>
  Everything that can happen to a client: the calls of the host, a timer firing, the
  response to a post, a queued continuation running, time passing, and the HTTP client
  starting or ceasing to raise. An event that cannot happen in a state (a timer that is
  not pending, a task that is not there) leaves the state as it is. A pending timer may
  fire at any moment, which covers every delay the runtime makes of \<open>delayMs\<close>.
\<close>

datatype Event =
    Init
  | Close
  | AcceptError ErrorValue
  | AcceptCounters json
  | AcceptMetrics json
  | ReportFeedback string json
  | OnNotificationsChanged nat
  | TimerFire ReportActions
  | Response nat Outcome
  | Continue nat
  | Elapse nat
  | Transport bool

definition step :: "Event \<Rightarrow> Client \<Rightarrow> Client" where
  "step ev s =
     (case ev of
        Init \<Rightarrow> init s
      | Close \<Rightarrow> close s
      | AcceptError e \<Rightarrow> acceptError e s
      | AcceptCounters v \<Rightarrow> acceptCounters v s
      | AcceptMetrics v \<Rightarrow> acceptMetrics v s
      | ReportFeedback f a \<Rightarrow> reportFeedback f a s
      | OnNotificationsChanged l \<Rightarrow> onNotificationsChanged l s
      | TimerFire n \<Rightarrow> timerFire n s
      | Response i out \<Rightarrow> response i out s
      | Continue i \<Rightarrow> continue i s
      | Elapse d \<Rightarrow> s\<lparr>now := now s + d\<rparr>
      | Transport b \<Rightarrow> s\<lparr>postThrows := b\<rparr>)"

fun run :: "Event list \<Rightarrow> Client \<Rightarrow> Client" where
  "run [] s = s"
| "run (ev # evs) s = run evs (step ev s)"


section \<open>Notions used in the statements\<close>

text \<open>The executions of the body of job \<open>n\<close> that are in flight.\<close>

definition isExec :: "ReportActions \<Rightarrow> Task \<Rightarrow> bool" where
  "isExec n t = (case t of Exec m r a \<Rightarrow> m = n | _ \<Rightarrow> False)"

definition inFlight :: "ReportActions \<Rightarrow> Client \<Rightarrow> nat" where
  "inFlight n s = length (filter (isExec n) (pending s))"

text \<open>The continuations of \<^verbatim>\<open>init()\<close> that have not yet called \<^verbatim>\<open>_schedule()\<close>.\<close>

definition inits :: "Client \<Rightarrow> nat" where
  "inits s = length (filter (\<lambda>t. t = InitSchedule) (pending s))"

text \<open>
  What every state of a client satisfies, per job: the runtime record exists exactly for a
  registered job, only enabled jobs are registered, a timer is pending only on an open
  client and for a registered job, and only registered jobs have executions in flight.
\<close>

definition wfJob :: "Client \<Rightarrow> ReportActions \<Rightarrow> bool" where
  "wfJob s n =
     ((jobRuntime s n = None \<longleftrightarrow> jobs s n = None)
      \<and> (jobs s n \<noteq> None \<longrightarrow> enabled (jobConfigs s n))
      \<and> (\<forall>j. jobs s n = Some j \<longrightarrow> cb j = n)
      \<and> (timers s n \<noteq> None \<longrightarrow> \<not> closed s \<and> jobs s n \<noteq> None)
      \<and> (0 < inFlight n s \<longrightarrow> jobs s n \<noteq> None))"

definition wellFormed :: "Client \<Rightarrow> bool" where
  "wellFormed s = (\<forall>n. wfJob s n)"

text \<open>
  The non-overlap invariant of a client on which \<^verbatim>\<open>init()\<close> is called at most once: a job
  has at most one execution in flight, and only while its flag is set; and as long as
  \<^verbatim>\<open>_schedule()\<close> has not run, no job has a runtime record.
\<close>

definition oneJob :: "Client \<Rightarrow> ReportActions \<Rightarrow> bool" where
  "oneJob s n = (inFlight n s \<le> (if jobRuntime s n = Some True then 1 else 0))"

definition fresh :: "Client \<Rightarrow> bool" where
  "fresh s = ((0 < inits s \<or> initCalls s = 0) \<longrightarrow> (\<forall>n. jobRuntime s n = None))"

definition singleInit :: "Client \<Rightarrow> bool" where
  "singleInit s =
     (inits s \<le> initCalls s \<and> (initCalls s \<le> 1 \<longrightarrow> (\<forall>n. oneJob s n) \<and> fresh s))"




text \<open>
  Environments for the concrete runs: one with identity, address and a three-second
  interval for the error report; one with the identity only.
\<close>

definition sampleEnv :: "string \<Rightarrow> string option" where
  "sampleEnv = map_of [(''WORLDVIOUS_ID'', ''abc''), (''WORLDVIOUS_URL'', ''http://c''),
     (''WORLDVIOUS_ERROR_REPORT_TIMEOUT'', ''3'')]"

definition idOnlyEnv :: "string \<Rightarrow> string option" where
  "idOnlyEnv = map_of [(''WORLDVIOUS_ID'', ''abc'')]"

text \<open>
  The error payloads of the flushes in flight that are still to be sent: for each
  execution of the error report that awaits the response to a post, the payloads queued
  behind that post.
\<close>

definition queued :: "Task \<Rightarrow> Body list" where
  "queued t =
     (case t of
        Exec n rest awaiting \<Rightarrow> if n = ReportError \<and> awaiting then rest else []
      | _ \<Rightarrow> [])"

definition waiting :: "Client \<Rightarrow> Body list" where
  "waiting s = concat (map queued (pending s))"

text \<open>The payloads of the posts to \<^verbatim>\<open>report/error\<close> among a list of posts.\<close>

definition errorPosts :: "Client \<Rightarrow> Request list \<Rightarrow> Body list" where
  "errorPosts s rs = map payload (filter (\<lambda>r. url r = fullUrl s ''report/error'') rs)"

text \<open>
  The posts that can still be made after \<^verbatim>\<open>close()\<close>, \<open>s\<close> being the client at the
  moment of the call: a feedback post, or the post of an error payload that was waiting
  in a flush in flight.
\<close>

definition afterClose :: "Client \<Rightarrow> Request \<Rightarrow> bool" where
  "afterClose s r =
     (url r = fullUrl s ''report/feedback''
      \<or> (url r = fullUrl s ''report/error'' \<and> payload r \<in> set (waiting s)))"

text \<open>
  A run in which \<^verbatim>\<open>init()\<close> completes: the jobs are registered, the version check runs
  and is answered, and every job has its timer armed.
\<close>

definition initRun :: "Event list" where
  "initRun = [Init, Continue 0, Continue 0, Response 1 (Resolved (Some [])), Continue 1,
              Continue 0, Continue 0, Continue 0, Continue 0]"

text \<open>
  What the pending error map of a client satisfies: its keys are distinct, each record
  carries its key as signature and a positive count, and no key is a property name of
  \<^verbatim>\<open>Object.prototype\<close>.
\<close>

definition errorsOk :: "(string \<times> ErrorInfo) list \<Rightarrow> bool" where
  "errorsOk errs =
     (distinct (map fst errs) \<and>
      (\<forall>p \<in> set errs. error (snd p) = fst p \<and> 0 < count (snd p)
                        \<and> fst p \<notin> set objectPrototypeKeys))"

text \<open>
  A run that ends with an error flush in flight (the report of \<open>b\<close> awaits its response,
  the report of \<open>c\<close> is still to be sent) and a new error \<open>d\<close> pending.
\<close>

definition flushRun :: "Event list" where
  "flushRun = initRun @
     [AcceptError (Thrown None ''a''), AcceptError (Thrown None ''b''),
      AcceptError (Thrown None ''c''), Response 0 (Resolved None), Continue 0,
      Elapse 3000, TimerFire ReportError, AcceptError (Thrown None ''d'')]"

text \<open>
  A run that ends with three signatures pending, recorded in the order \<open>b\<close>, \<open>7\<close>, \<open>1\<close>,
  and the error report idle with its timer armed.
\<close>

definition orderRun :: "Event list" where
  "orderRun = initRun @
     [AcceptError (Thrown None ''a''), AcceptError (Thrown None ''b''),
      AcceptError (Thrown None ''7''), AcceptError (Thrown None ''1''),
      Response 0 (Resolved None), Continue 0]"

text \<open>
  A run outside the life of a client as the specification fixes it: \<^verbatim>\<open>init()\<close> is called
  a second time, while the version check is in flight.
\<close>

definition doubleInitRun :: "Event list" where
  "doubleInitRun = [Init, Continue 0, Continue 0, Init, Continue 2, Continue 2]"

text \<open>
  Environments with an override of the interval of the error report: one that is not the
  numeral of an integer, one that is the numeral of \<open>2 ^ 53 + 1\<close>, and one without a digit.
\<close>

definition overrideEnv :: "string \<Rightarrow> string \<Rightarrow> string option" where
  "overrideEnv v = map_of [(''WORLDVIOUS_ID'', ''abc''), (''WORLDVIOUS_URL'', ''http://c''),
     (''WORLDVIOUS_ERROR_REPORT_TIMEOUT'', v)]"



text \<open>
  The state of a client that was constructed disabled: no job enabled, registered,
  scheduled or in flight, no body invoked so far, and only feedback posts made.
\<close>

definition feedbackOnly :: "Client \<Rightarrow> bool" where
  "feedbackOnly s = list_all (\<lambda>r. url r = fullUrl s ''report/feedback'') (requests s)"

definition disabledClient :: "Client \<Rightarrow> bool" where
  "disabledClient s =
     ((\<forall>n. \<not> enabled (jobConfigs s n) \<and> jobs s n = None \<and> timers s n = None \<and> inFlight n s = 0)
      \<and> started s = [] \<and> feedbackOnly s)"

text \<open>
  A job that is stuck: its flag is set although no execution of it is in flight, and no
  \<^verbatim>\<open>_schedule()\<close> is pending that would reset the flag.
\<close>

definition stalled :: "ReportActions \<Rightarrow> Client \<Rightarrow> bool" where
  "stalled n s = (jobRuntime s n = Some True \<and> inFlight n s = 0 \<and> inits s = 0)"

text \<open>A run in which the HTTP client raises when the version check posts.\<close>

definition throwRun :: "Event list" where
  "throwRun = [Transport True, Init, Continue 0, Continue 0, Transport False,
               Continue 0, Continue 0, Continue 0, Continue 0]"


section \<open>Invariants of the scheduler\<close>

lemma wfI: "(\<And>n. wfJob s n) \<Longrightarrow> wellFormed s" by (simp add: wellFormed_def)
lemma wfD: "wellFormed s \<Longrightarrow> wfJob s n" by (simp add: wellFormed_def)

lemma foldl_trigger_eq:
  "foldl (\<lambda>acc l. trigger l acc) s ls = s\<lparr>pending := pending s @ map Notify ls\<rparr>"
  by (induction ls arbitrary: s) (simp_all add: trigger_def)

lemma activate_eq: "activateNewVersionInfo ns s = s\<lparr>versionCheckResult := ns, pending := pending s @ map Notify (listeners s)\<rparr>"
  by (simp add: activateNewVersionInfo_def foldl_trigger_eq)

lemma filter_isExec_Notify [simp]: "filter (isExec n) (map Notify ls) = []"
  by (induction ls) (simp_all add: isExec_def)

lemma isExec_simps [simp]:
  "isExec n (Exec m r a) = (m = n)" "isExec n InitSchedule = False" "isExec n (InitJobs ns) = False"
  "isExec n (Notify l) = False" "isExec n Feedback = False"
  by (simp_all add: isExec_def)

lemma filter_update:
  "i < length ps \<Longrightarrow> length (filter P (ps[i := t])) + (if P (ps ! i) then 1 else 0)
     = length (filter P ps) + (if P t then 1 else 0)"
proof (induction ps arbitrary: i)
  case Nil then show ?case by simp
next
  case (Cons p ps) then show ?case by (cases i) auto
qed

lemma filter_remove:
  "i < length ps \<Longrightarrow> length (filter P (take i ps @ drop (Suc i) ps)) + (if P (ps ! i) then 1 else 0)
     = length (filter P ps)"
proof (induction ps arbitrary: i)
  case Nil then show ?case by simp
next
  case (Cons p ps) then show ?case by (cases i) auto
qed

lemma inFlight_setTask:
  "i < length (pending s) \<Longrightarrow> isExec n (pending s ! i) = isExec n t \<Longrightarrow> inFlight n (setTask i t s) = inFlight n s"
  using filter_update[of i "pending s" "isExec n" t] by (auto simp: inFlight_def setTask_def split: if_splits)

lemma inFlight_dropTask:
  "i < length (pending s) \<Longrightarrow> inFlight n (dropTask i s) = inFlight n s - (if isExec n (pending s ! i) then 1 else 0)"
  using filter_remove[of i "pending s" "isExec n"] by (auto simp: inFlight_def dropTask_def split: if_splits)

lemma inFlight_pos_nth: "i < length (pending s) \<Longrightarrow> isExec n (pending s ! i) \<Longrightarrow> 0 < inFlight n s"
  using nth_mem[of i "pending s"] by (auto simp: inFlight_def filter_empty_conv)

lemma armTimer_eq:
  "armTimer n job s =
     (if timers s n = None then
        s\<lparr>isFirstErrorReported := (preScheduleCb job = None \<and> isFirstErrorReported s),
          timers := (timers s)(n := Some \<lparr>armedAt = now s, delayMs = multiply (seconds job) (Finite 1000)\<rparr>),
          hookCalls := (if preScheduleCb job = None then hookCalls s else hookCalls s @ [n])\<rparr>
      else s)"
  by (cases "preScheduleCb job"; cases "the (preScheduleCb job)") (auto simp: armTimer_def runHook_def Let_def)

lemma runJob_False: "runJob n False s = runJobLater n s"
  by (simp add: runJob_def runJobLater_def split: option.splits)


lemma handler_eq:
  "handler n job s =
     (case jobRuntime s n of
        None \<Rightarrow> s
      | Some isRunning \<Rightarrow>
          if isRunning then runJobLater n s
          else
            (let b = jobBody (cb job) (s\<lparr>jobRuntime := (jobRuntime s)(n := Some True),
                                        started := started s @ [n]\<rparr>)
             in case snd b of
                  Raised \<Rightarrow> fst b
                | Returned rest awaiting \<Rightarrow> (fst b)\<lparr>pending := pending (fst b) @ [Exec n rest awaiting]\<rparr>))"
  by (simp add: handler_def Let_def case_prod_beta split: option.splits)

lemma jobBody_frame [simp]:
  "name (fst (jobBody m s)) = name s" "version (fst (jobBody m s)) = version s"
  "clientEnabled (fst (jobBody m s)) = clientEnabled s" "clientId (fst (jobBody m s)) = clientId s"
  "closed (fst (jobBody m s)) = closed s"
  "isFirstErrorReported (fst (jobBody m s)) = isFirstErrorReported s"
  "jobConfigs (fst (jobBody m s)) = jobConfigs s" "timers (fst (jobBody m s)) = timers s"
  "jobs (fst (jobBody m s)) = jobs s" "jobRuntime (fst (jobBody m s)) = jobRuntime s"
  "counters (fst (jobBody m s)) = counters s" "metrics (fst (jobBody m s)) = metrics s"
  "versionCheckResult (fst (jobBody m s)) = versionCheckResult s"
  "listeners (fst (jobBody m s)) = listeners s" "env (fst (jobBody m s)) = env s"
  "now (fst (jobBody m s)) = now s" "postThrows (fst (jobBody m s)) = postThrows s"
  "pending (fst (jobBody m s)) = pending s" "started (fst (jobBody m s)) = started s"
  "hookCalls (fst (jobBody m s)) = hookCalls s" "delivered (fst (jobBody m s)) = delivered s"
  "initCalls (fst (jobBody m s)) = initCalls s"
  by (cases m; simp add: jobBody_def checkVersion_def reportCounters_def reportMetrics_def
        reportError_def serial_def request_def split: list.splits)+

lemma inFlight_jobBody [simp]: "inFlight n (fst (jobBody m s)) = inFlight n s"
  by (simp add: inFlight_def)

lemma wellFormed_construct: "wellFormed (construct e nm ver)"
  by (simp add: wellFormed_def wfJob_def construct_def inFlight_def Let_def)

lemma inFlight_fields [simp]:
  "inFlight n (s\<lparr>timers := t\<rparr>) = inFlight n s"
  "inFlight n (s\<lparr>jobRuntime := r\<rparr>) = inFlight n s"
  "inFlight n (s\<lparr>jobs := j\<rparr>) = inFlight n s"
  "inFlight n (s\<lparr>isFirstErrorReported := b\<rparr>) = inFlight n s"
  "inFlight n (s\<lparr>hookCalls := h\<rparr>) = inFlight n s"
  "inFlight n (s\<lparr>started := st\<rparr>) = inFlight n s"
  "inFlight n (s\<lparr>requests := rq\<rparr>) = inFlight n s"
  "inFlight n (s\<lparr>errors := er\<rparr>) = inFlight n s"
  "inFlight n (s\<lparr>closed := c\<rparr>) = inFlight n s"
  "inFlight n (s\<lparr>counters := v\<rparr>) = inFlight n s"
  "inFlight n (s\<lparr>metrics := v\<rparr>) = inFlight n s"
  "inFlight n (s\<lparr>listeners := ls\<rparr>) = inFlight n s"
  "inFlight n (s\<lparr>versionCheckResult := vr\<rparr>) = inFlight n s"
  "inFlight n (s\<lparr>delivered := d\<rparr>) = inFlight n s"
  "inFlight n (s\<lparr>initCalls := k\<rparr>) = inFlight n s"
  "inFlight n (s\<lparr>now := k\<rparr>) = inFlight n s"
  "inFlight n (s\<lparr>postThrows := b\<rparr>) = inFlight n s"
  by (simp_all add: inFlight_def)

lemma inFlight_append [simp]: "inFlight n (s\<lparr>pending := pending s @ ts\<rparr>) = inFlight n s + length (filter (isExec n) ts)"
  by (simp add: inFlight_def)

lemma wf_armTimer: "wfJob s m \<Longrightarrow> \<not> closed s \<Longrightarrow> jobs s n \<noteq> None \<Longrightarrow> wfJob (armTimer n job s) m"
  by (auto simp: armTimer_eq wfJob_def)

lemma wf_runJobLater: "wfJob s m \<Longrightarrow> wfJob (runJobLater n s) m"
  by (auto simp: runJobLater_def wf_armTimer split: option.splits)

lemma wf_handler: "wfJob s m \<Longrightarrow> jobs s n \<noteq> None \<Longrightarrow> wfJob (handler n job s) m"
  apply (simp add: handler_eq Let_def wf_runJobLater split: option.splits BodyResult.splits)
  apply (auto simp: wfJob_def inFlight_def)
  done

lemma wf_stop: "wfJob s m \<Longrightarrow> wfJob (stopScheduledJob n s) m"
  by (auto simp: wfJob_def stopScheduledJob_def split: option.splits)

lemma jobs_stop [simp]: "jobs (stopScheduledJob n s) = jobs s"
  by (auto simp: stopScheduledJob_def split: option.splits)

lemma wf_runJob: "wfJob s m \<Longrightarrow> wfJob (runJob n x s) m"
proof (cases x)
  case False
  then show "wfJob s m \<Longrightarrow> wfJob (runJob n x s) m" by (simp add: runJob_False wf_runJobLater)
next
  case True
  assume "wfJob s m"
  then show "wfJob (runJob n x s) m" using True
    by (simp add: runJob_def wf_handler wf_stop split: option.splits)
qed

lemma wf_register: "wfJob s m \<Longrightarrow> wfJob (register n h s) m"
  by (auto simp: wfJob_def register_def Let_def)

lemma wf_schedule: "wfJob s m \<Longrightarrow> wfJob (schedule s) m"
  by (simp add: schedule_def wf_register)

lemma wf_setTask: "wfJob s m \<Longrightarrow> i < length (pending s) \<Longrightarrow> (isExec m t \<longrightarrow> isExec m (pending s ! i)) \<Longrightarrow> wfJob (setTask i t s) m"
  using filter_update[of i "pending s" "isExec m" t]
  by (auto simp: wfJob_def setTask_def inFlight_def split: if_splits)

lemma wf_dropTask: "wfJob s m \<Longrightarrow> i < length (pending s) \<Longrightarrow> wfJob (dropTask i s) m"
  using filter_remove[of i "pending s" "isExec m"]
  by (auto simp: wfJob_def dropTask_def inFlight_def split: if_splits)


lemma wf_step: "wellFormed s \<Longrightarrow> wellFormed (step ev s)"
proof (rule wfI)
  fix m assume wf: "wellFormed s"
  show "wfJob (step ev s) m"
  proof (cases ev)
    case Init
    then show ?thesis using wfD[OF wf, of m] by (simp add: step_def init_def wfJob_def inFlight_def)
  next
    case Close
    then show ?thesis using wfD[OF wf, of m] by (simp add: step_def close_def wfJob_def inFlight_def)
  next
    case (AcceptError e)
    have "wfJob (s\<lparr>errors := recordError (getErrorString e) (errors s), isFirstErrorReported := True\<rparr>) m"
         "wfJob (s\<lparr>errors := recordError (getErrorString e) (errors s)\<rparr>) m"
      using wfD[OF wf, of m] by (simp_all add: wfJob_def inFlight_def)
    then show ?thesis using AcceptError by (simp add: step_def acceptError_def Let_def wf_runJob)
  next
    case (AcceptCounters v)
    then show ?thesis using wfD[OF wf, of m] by (simp add: step_def acceptCounters_def wfJob_def inFlight_def)
  next
    case (AcceptMetrics v)
    then show ?thesis using wfD[OF wf, of m] by (simp add: step_def acceptMetrics_def wfJob_def inFlight_def)
  next
    case (ReportFeedback f a)
    then show ?thesis using wfD[OF wf, of m]
      by (simp add: step_def reportFeedback_def request_def Let_def wfJob_def inFlight_def)
  next
    case (OnNotificationsChanged l)
    then show ?thesis using wfD[OF wf, of m]
      by (simp add: step_def onNotificationsChanged_def trigger_def wfJob_def inFlight_def)
  next
    case (TimerFire n)
    show ?thesis
    proof (cases "timers s n")
      case None then show ?thesis using TimerFire wfD[OF wf, of m] by (simp add: step_def timerFire_def)
    next
      case (Some t)
      then obtain job where job: "jobs s n = Some job" using wfD[OF wf, of n] by (auto simp: wfJob_def)
      have "wfJob (s\<lparr>timers := (timers s)(n := None)\<rparr>) m"
        using wfD[OF wf, of m] by (simp add: wfJob_def inFlight_def)
      then show ?thesis using TimerFire Some job by (simp add: step_def timerFire_def wf_handler)
    qed
  next
    case (Response i out)
    show ?thesis
    proof (cases "i < length (pending s)")
      case False then show ?thesis using Response wfD[OF wf, of m] by (simp add: step_def response_def)
    next
      case True
      have act: "wfJob (activateNewVersionInfo ns s) m" for ns
        using wfD[OF wf, of m] by (simp add: activate_eq wfJob_def inFlight_def)
      have rq: "wfJob (request u p s) m" for u p
        using wfD[OF wf, of m] by (simp add: request_def wfJob_def inFlight_def)
      have len: "i < length (pending (activateNewVersionInfo ns s))" 
           "pending (activateNewVersionInfo ns s) ! i = pending s ! i" for ns
        using True by (simp_all add: activate_eq nth_append)
      have len2: "i < length (pending (request u p s))" "pending (request u p s) ! i = pending s ! i" for u p
        using True by (simp_all add: request_def)
      show ?thesis using Response True wfD[OF wf, of m] act rq len len2
        by (auto simp: step_def response_def wf_setTask wf_dropTask
            split: Task.splits ReportActions.splits Outcome.splits option.splits list.splits)
    qed
  next
    case (Continue i)
    show ?thesis
    proof (cases "i < length (pending s)")
      case False then show ?thesis using Continue wfD[OF wf, of m] by (simp add: step_def continue_def)
    next
      case True
      note lt = this
      show ?thesis
      proof (cases "pending s ! i")
        case InitSchedule
        then show ?thesis using Continue lt wf_schedule[OF wfD[OF wf, of m]]
          by (simp add: step_def continue_def wf_setTask schedule_def register_def Let_def)
      next
        case (InitJobs ns)
        then show ?thesis using Continue lt wfD[OF wf, of m]
          by (cases ns) (simp_all add: step_def continue_def wf_dropTask wf_runJob wf_setTask)
      next
        case (Exec n rest awaiting)
        have "0 < inFlight n s" using lt Exec by (simp add: inFlight_pos_nth)
        then have j: "jobs s n \<noteq> None" using wfD[OF wf, of n] by (simp add: wfJob_def)
        have "wfJob (dropTask i s) m" using lt wfD[OF wf, of m] by (simp add: wf_dropTask)
        then have "wfJob ((dropTask i s)\<lparr>jobRuntime := (jobRuntime (dropTask i s))(n := Some False)\<rparr>) m"
          using j by (auto simp: wfJob_def dropTask_def inFlight_def)
        then show ?thesis using Continue lt Exec wfD[OF wf, of m]
          by (simp add: step_def continue_def complete_def wf_runJob)
      next
        case (Notify l)
        have "wfJob (dropTask i s) m" using lt wfD[OF wf, of m] by (simp add: wf_dropTask)
        then have "wfJob ((dropTask i s)\<lparr>delivered := delivered s @ [(l, versionCheckResult s)]\<rparr>) m"
          by (simp add: wfJob_def inFlight_def)
        then show ?thesis using Continue lt Notify by (simp add: step_def continue_def)
      next
        case Feedback
        then show ?thesis using Continue lt wfD[OF wf, of m] by (simp add: step_def continue_def)
      qed
    qed
  next
    case (Elapse d)
    then show ?thesis using wfD[OF wf, of m] by (simp add: step_def wfJob_def inFlight_def)
  next
    case (Transport b)
    then show ?thesis using wfD[OF wf, of m] by (simp add: step_def wfJob_def inFlight_def)
  qed
qed

lemma wf_run: "wellFormed s \<Longrightarrow> wellFormed (run evs s)"
  by (induction evs arbitrary: s) (simp_all add: wf_step)

lemma singleInit_cong:
  "singleInit s \<Longrightarrow> pending s' = pending s \<Longrightarrow> jobRuntime s' = jobRuntime s
   \<Longrightarrow> initCalls s' = initCalls s \<Longrightarrow> singleInit s'"
  by (simp add: singleInit_def oneJob_def fresh_def inits_def inFlight_def)

lemma armTimer_sched [simp]:
  "pending (armTimer n job s) = pending s" "jobRuntime (armTimer n job s) = jobRuntime s"
  "initCalls (armTimer n job s) = initCalls s"
  by (simp_all add: armTimer_eq)

lemma runJobLater_sched [simp]:
  "pending (runJobLater n s) = pending s" "jobRuntime (runJobLater n s) = jobRuntime s"
  "initCalls (runJobLater n s) = initCalls s"
  by (simp_all add: runJobLater_def split: option.splits)

lemma stop_sched [simp]:
  "pending (stopScheduledJob n s) = pending s" "jobRuntime (stopScheduledJob n s) = jobRuntime s"
  "initCalls (stopScheduledJob n s) = initCalls s"
  by (simp_all add: stopScheduledJob_def split: option.splits)


lemma handler_start:
  assumes "jobRuntime s n = Some False"
  shows "\<exists>s'. handler n job s = s' \<and> jobRuntime s' = (jobRuntime s)(n := Some True) \<and> initCalls s' = initCalls s
     \<and> (pending s' = pending s \<or> (\<exists>rest aw. pending s' = pending s @ [Exec n rest aw]))"
  using assms by (simp add: handler_eq Let_def split: BodyResult.splits)

lemma si_handler_start:
  assumes si: "singleInit s" and r: "jobRuntime s n = Some False"
     and j: "jobRuntime s' = (jobRuntime s)(n := Some True)" and i: "initCalls s' = initCalls s"
     and p: "pending s' = pending s \<or> (\<exists>rest aw. pending s' = pending s @ [Exec n rest aw])"
  shows "singleInit s'"
proof -
  have zero: "inFlight n s = 0" if "initCalls s \<le> 1"
  proof -
    have "oneJob s n" using si that by (simp add: singleInit_def)
    then show ?thesis using r by (simp add: oneJob_def)
  qed
  have nofresh: "\<not> (0 < inits s \<or> initCalls s = 0)" if "initCalls s \<le> 1"
  proof -
    have "fresh s" using si that by (simp add: singleInit_def)
    then show ?thesis using r unfolding fresh_def by force
  qed
  have i1: "inits s' = inits s" using p by (auto simp: inits_def)
  have i2: "inFlight m s' \<le> inFlight m s + (if m = n then 1 else 0)" 
           "m \<noteq> n \<Longrightarrow> inFlight m s' = inFlight m s" for m
    using p by (auto simp: inFlight_def)
  show ?thesis
  proof (cases "initCalls s \<le> 1")
    case False
    then show ?thesis using si by (simp add: singleInit_def i1 i)
  next
    case True
    have "oneJob s' m" for m
    proof (cases "m = n")
      case True
      then show ?thesis using i2(1)[of n] zero \<open>initCalls s \<le> 1\<close> by (simp add: oneJob_def j)
    next
      case False
      then show ?thesis using i2(2)[of m] si \<open>initCalls s \<le> 1\<close> by (simp add: oneJob_def singleInit_def j)
    qed
    moreover have "fresh s'" using nofresh True by (simp add: fresh_def i1 i)
    ultimately show ?thesis using si by (simp add: singleInit_def i1 i)
  qed
qed

lemma si_handler: "singleInit s \<Longrightarrow> singleInit (handler n job s)"
proof (cases "jobRuntime s n")
  case None
  then show "singleInit s \<Longrightarrow> singleInit (handler n job s)" by (simp add: handler_eq)
next
  case (Some r)
  assume si: "singleInit s"
  show "singleInit (handler n job s)"
  proof (cases r)
    case True
    then have "handler n job s = runJobLater n s" using Some by (simp add: handler_eq)
    then show ?thesis using singleInit_cong[OF si, of "runJobLater n s"] by simp
  next
    case False
    then have r: "jobRuntime s n = Some False" using Some by simp
    from handler_start[OF r, of job] obtain s' where
      s': "handler n job s = s'" "jobRuntime s' = (jobRuntime s)(n := Some True)" "initCalls s' = initCalls s"
        "pending s' = pending s \<or> (\<exists>rest aw. pending s' = pending s @ [Exec n rest aw])"
      by blast
    show ?thesis using si_handler_start[OF si r s'(2,3,4)] s'(1) by simp
  qed
qed

lemma si_runJob: "singleInit s \<Longrightarrow> singleInit (runJob n x s)"
proof (cases x)
  case False
  then show "singleInit s \<Longrightarrow> singleInit (runJob n x s)"
    using singleInit_cong[of s "runJobLater n s"] by (simp add: runJob_False)
next
  case True
  assume si: "singleInit s"
  then have "singleInit (stopScheduledJob n s)" using singleInit_cong[of s "stopScheduledJob n s"] by simp
  then show "singleInit (runJob n x s)" using si True by (simp add: runJob_def si_handler split: option.splits)
qed

lemma inits_setTask:
  "i < length (pending s) \<Longrightarrow> inits (setTask i t s) + (if pending s ! i = InitSchedule then 1 else 0)
      = inits s + (if t = InitSchedule then 1 else 0)"
  using filter_update[of i "pending s" "\<lambda>t. t = InitSchedule" t] by (simp add: inits_def setTask_def)

lemma inits_dropTask:
  "i < length (pending s) \<Longrightarrow> inits (dropTask i s) + (if pending s ! i = InitSchedule then 1 else 0) = inits s"
  using filter_remove[of i "pending s" "\<lambda>t. t = InitSchedule"] by (simp add: inits_def dropTask_def)

lemma si_setTask_same:
  assumes "singleInit s" "i < length (pending s)" "pending s ! i \<noteq> InitSchedule" "t \<noteq> InitSchedule"
    "\<And>n. isExec n t = isExec n (pending s ! i)"
  shows "singleInit (setTask i t s)"
proof -
  have a: "inits (setTask i t s) = inits s" using inits_setTask[of i s t] assms by simp
  have b: "inFlight n (setTask i t s) = inFlight n s" for n using inFlight_setTask[of i s n t] assms by simp
  have c: "jobRuntime (setTask i t s) = jobRuntime s" "initCalls (setTask i t s) = initCalls s"
    by (simp_all add: setTask_def)
  show ?thesis using assms(1) by (simp add: singleInit_def oneJob_def fresh_def a b c)
qed

lemma si_dropTask_other:
  assumes "singleInit s" "i < length (pending s)" "pending s ! i \<noteq> InitSchedule"
    "\<And>n. \<not> isExec n (pending s ! i)"
  shows "singleInit (dropTask i s)"
proof -
  have a: "inits (dropTask i s) = inits s" using inits_dropTask[of i s] assms by simp
  have b: "inFlight n (dropTask i s) = inFlight n s" for n using inFlight_dropTask[of i s n] assms by simp
  have c: "jobRuntime (dropTask i s) = jobRuntime s" "initCalls (dropTask i s) = initCalls s"
    by (simp_all add: dropTask_def)
  show ?thesis using assms(1) by (simp add: singleInit_def oneJob_def fresh_def a b c)
qed

lemma si_complete:
  assumes si: "singleInit s" and lt: "i < length (pending s)" and ex: "pending s ! i = Exec n rest aw"
  shows "singleInit (complete n (dropTask i s))"
proof -
  let ?s2 = "(dropTask i s)\<lparr>jobRuntime := (jobRuntime (dropTask i s))(n := Some False)\<rparr>"
  have a: "inits ?s2 = inits s" using inits_dropTask[of i s] lt ex by (simp add: inits_def)
  have b: "inFlight m ?s2 = inFlight m s - (if m = n then 1 else 0)" for m
    using inFlight_dropTask[of i s m] lt ex by auto
  have pos: "0 < inFlight n s" using lt ex by (simp add: inFlight_pos_nth)
  have c: "jobRuntime ?s2 = (jobRuntime s)(n := Some False)" "initCalls ?s2 = initCalls s"
    by (simp_all add: dropTask_def)
  have run: "initCalls s \<le> 1 \<Longrightarrow> jobRuntime s n = Some True"
    using si pos by (auto simp: singleInit_def oneJob_def split: if_splits)
  have "singleInit ?s2"
  proof (cases "initCalls s \<le> 1")
    case False
    then show ?thesis using si by (simp add: singleInit_def a c)
  next
    case True
    have one: "oneJob s m" for m using si True by (simp add: singleInit_def)
    have fr: "fresh s" using si True by (simp add: singleInit_def)
    have "oneJob ?s2 m" for m
      using one[of m] inFlight_dropTask[of i s m] lt ex
      by (cases "m = n") (auto simp: oneJob_def c split: if_splits)
    moreover have "fresh ?s2"
      using fr run[OF True] unfolding fresh_def a c by auto
    ultimately show ?thesis using si by (simp add: singleInit_def a c)
  qed
  then show ?thesis by (simp add: complete_def si_runJob)
qed

lemma register_sched:
  "pending (register n h s) = pending s" "initCalls (register n h s) = initCalls s"
  "jobRuntime (register n h s) m = None \<or> jobRuntime (register n h s) m = Some False \<or> jobRuntime (register n h s) m = jobRuntime s m"
  by (auto simp: register_def Let_def)

lemma schedule_sched:
  "pending (schedule s) = pending s" "initCalls (schedule s) = initCalls s"
  "(\<forall>n. jobRuntime s n = None) \<Longrightarrow> jobRuntime (schedule s) m \<noteq> Some True"
  by (auto simp: schedule_def register_def Let_def)

lemma si_schedule:
  assumes si: "singleInit s" and lt: "i < length (pending s)" and ex: "pending s ! i = InitSchedule"
  shows "singleInit (setTask i (InitJobs ns) (schedule s))"
proof -
  let ?s2 = "setTask i (InitJobs ns) (schedule s)"
  have lt': "i < length (pending (schedule s))" "pending (schedule s) ! i = InitSchedule"
    using lt ex by (simp_all add: schedule_sched)
  have a: "inits ?s2 + 1 = inits s"
    using inits_setTask[of i "schedule s" "InitJobs ns"] lt' by (simp add: inits_def schedule_sched)
  have b: "inFlight m ?s2 = inFlight m s" for m
    using inFlight_setTask[of i "schedule s" m "InitJobs ns"] lt' by (simp add: inFlight_def schedule_sched)
  have c: "initCalls ?s2 = initCalls s" by (simp add: setTask_def schedule_sched)
  have d: "jobRuntime ?s2 = jobRuntime (schedule s)" by (simp add: setTask_def)
  have pos: "0 < inits s" using a by simp
  show ?thesis
  proof (cases "initCalls s \<le> 1")
    case False
    then show ?thesis using si a by (simp add: singleInit_def c)
  next
    case True
    then have none: "\<forall>n. jobRuntime s n = None" using si pos by (simp add: singleInit_def fresh_def)
    have zero: "inFlight m s = 0" for m using si True none by (auto simp: singleInit_def oneJob_def)
    have "inits ?s2 = 0" using a si True by (simp add: singleInit_def)
    moreover have "initCalls s \<noteq> 0" using si pos by (auto simp: singleInit_def)
    ultimately show ?thesis using si a by (simp add: singleInit_def oneJob_def fresh_def b c zero)
  qed
qed


lemma singleInit_cong2:
  "singleInit s \<Longrightarrow> inits s' = inits s \<Longrightarrow> (\<And>n. inFlight n s' = inFlight n s)
   \<Longrightarrow> jobRuntime s' = jobRuntime s \<Longrightarrow> initCalls s' = initCalls s \<Longrightarrow> singleInit s'"
  by (simp add: singleInit_def oneJob_def fresh_def)

lemma si_init: "singleInit s \<Longrightarrow> singleInit (init s)"
proof -
  assume si: "singleInit s"
  have a: "inits (init s) = Suc (inits s)" "initCalls (init s) = Suc (initCalls s)"
    "jobRuntime (init s) = jobRuntime s" "\<And>n. inFlight n (init s) = inFlight n s"
    by (simp_all add: init_def inits_def inFlight_def)
  show "singleInit (init s)"
  proof (cases "initCalls s = 0")
    case False
    then show ?thesis using si by (simp add: singleInit_def a)
  next
    case True
    then have "fresh s" "\<And>n. oneJob s n" using si by (simp_all add: singleInit_def)
    then show ?thesis using si True by (simp add: singleInit_def fresh_def oneJob_def a)
  qed
qed

lemma si_setExec:
  "singleInit s \<Longrightarrow> i < length (pending s) \<Longrightarrow> pending s ! i = Exec n rest aw
   \<Longrightarrow> singleInit (setTask i (Exec n r a) s)"
  by (rule si_setTask_same) simp_all

lemma si_step: "singleInit s \<Longrightarrow> singleInit (step ev s)"
proof -
  assume si: "singleInit s"
  show "singleInit (step ev s)"
  proof (cases ev)
    case Init
    then show ?thesis using si by (simp add: step_def si_init)
  next
    case Close
    then show ?thesis using singleInit_cong[OF si, of "close s"] by (simp add: step_def close_def)
  next
    case (AcceptError e)
    have "singleInit (s\<lparr>errors := recordError (getErrorString e) (errors s), isFirstErrorReported := True\<rparr>)"
         "singleInit (s\<lparr>errors := recordError (getErrorString e) (errors s)\<rparr>)"
      by (rule singleInit_cong[OF si]; simp)+
    then show ?thesis using AcceptError by (simp add: step_def acceptError_def Let_def si_runJob)
  next
    case (AcceptCounters v)
    then show ?thesis using singleInit_cong[OF si, of "acceptCounters v s"] by (simp add: step_def acceptCounters_def)
  next
    case (AcceptMetrics v)
    then show ?thesis using singleInit_cong[OF si, of "acceptMetrics v s"] by (simp add: step_def acceptMetrics_def)
  next
    case (ReportFeedback f a)
    have "singleInit (reportFeedback f a s)"
      by (rule singleInit_cong2[OF si]) (simp_all add: reportFeedback_def request_def Let_def inits_def inFlight_def)
    then show ?thesis using ReportFeedback by (simp add: step_def)
  next
    case (OnNotificationsChanged l)
    have "singleInit (onNotificationsChanged l s)"
      by (rule singleInit_cong2[OF si]) (simp_all add: onNotificationsChanged_def trigger_def inits_def inFlight_def)
    then show ?thesis using OnNotificationsChanged by (simp add: step_def)
  next
    case (TimerFire n)
    have "singleInit (s\<lparr>timers := (timers s)(n := None)\<rparr>)"
      by (rule singleInit_cong[OF si]; simp)
    then show ?thesis using TimerFire si
      by (simp add: step_def timerFire_def si_handler split: option.splits)
  next
    case (Response i out)
    show ?thesis
    proof (cases "i < length (pending s)")
      case False then show ?thesis using Response si by (simp add: step_def response_def)
    next
      case True
      have act: "singleInit (activateNewVersionInfo ns s)" for ns
        by (rule singleInit_cong2[OF si]) (simp_all add: activate_eq inits_def inFlight_def)
      have rq: "singleInit (request u p s)" for u p
        by (rule singleInit_cong[OF si]) (simp_all add: request_def)
      have len: "i < length (pending (activateNewVersionInfo ns s))" 
           "pending (activateNewVersionInfo ns s) ! i = pending s ! i" for ns
        using True by (simp_all add: activate_eq nth_append)
      have len2: "i < length (pending (request u p s))" "pending (request u p s) ! i = pending s ! i" for u p
        using True by (simp_all add: request_def)
      show ?thesis
      proof (cases "pending s ! i")
        case (Exec n rest aw)
        show ?thesis using Response True Exec si act rq len len2
          by (auto simp: step_def response_def si_setExec
              split: ReportActions.splits Outcome.splits option.splits list.splits)
      next
        case Feedback
        then show ?thesis using Response True si by (simp add: step_def response_def si_dropTask_other)
      qed (use Response True si in \<open>simp_all add: step_def response_def\<close>)
    qed
  next
    case (Continue i)
    show ?thesis
    proof (cases "i < length (pending s)")
      case False then show ?thesis using Continue si by (simp add: step_def continue_def)
    next
      case True
      note lt = this
      show ?thesis
      proof (cases "pending s ! i")
        case InitSchedule
        then show ?thesis using Continue lt si by (simp add: step_def continue_def si_schedule)
      next
        case (InitJobs ns)
        have "singleInit (setTask i (InitJobs r) s)" for r
          by (rule si_setTask_same) (use si lt InitJobs in simp_all)
        then show ?thesis using Continue lt si InitJobs
          by (cases ns) (simp_all add: step_def continue_def si_dropTask_other si_runJob)
      next
        case (Exec n rest awaiting)
        then show ?thesis using Continue lt si si_complete[OF si lt Exec]
          by (simp add: step_def continue_def)
      next
        case (Notify l)
        have d: "singleInit (dropTask i s)" using lt si Notify by (simp add: si_dropTask_other)
        have "singleInit ((dropTask i s)\<lparr>delivered := delivered s @ [(l, versionCheckResult s)]\<rparr>)"
          by (rule singleInit_cong[OF d]; simp)
        then show ?thesis using Continue lt Notify by (simp add: step_def continue_def)
      next
        case Feedback
        then show ?thesis using Continue lt si by (simp add: step_def continue_def)
      qed
    qed
  next
    case (Elapse d)
    then show ?thesis using singleInit_cong[OF si, of "s\<lparr>now := now s + d\<rparr>"] by (simp add: step_def)
  next
    case (Transport b)
    then show ?thesis using singleInit_cong[OF si, of "s\<lparr>postThrows := b\<rparr>"] by (simp add: step_def)
  qed
qed

lemma si_run: "singleInit s \<Longrightarrow> singleInit (run evs s)"
  by (induction evs arbitrary: s) (simp_all add: si_step)

lemma si_construct: "singleInit (construct e nm ver)"
  by (simp add: singleInit_def oneJob_def fresh_def inits_def inFlight_def construct_def Let_def)

text \<open>The definitions a concrete run is evaluated with.\<close>

text \<open>Below \<open>2 ^ 53\<close> the conversion to a double is exact.\<close>

lemma ulp_small: "m < 2 ^ 53 \<Longrightarrow> ulp m = 1"
  by (simp add: ulp.simps[of m])


lemma roundNat_small: "m < 2 ^ 53 \<Longrightarrow> roundNat m = m"
  by (simp add: roundNat_def ulp_small)

lemma toNumber_small: "\<bar>i\<bar> < 2 ^ 53 \<Longrightarrow> toNumber i = Finite i"
proof -
  assume a: "\<bar>i\<bar> < 2 ^ 53"
  define m where "m = nat \<bar>i\<bar>"
  have m: "m < 2 ^ 53" using a by (simp add: m_def nat_less_iff)
  have r: "roundNat m = m" using m by (rule roundNat_small)
  have "(2::nat) ^ 53 \<le> 2 ^ 1024" by (rule power_increasing) simp_all
  then have big: "\<not> 2 ^ 1024 \<le> m" using m by linarith
  have "toNumber i = Finite (if i < 0 then - int m else int m)"
    unfolding toNumber_def Let_def m_def[symmetric] r using big by (simp only: if_False)
  also have "(if i < 0 then - int m else int m) = i" by (simp add: m_def)
  finally show ?thesis .
qed

lemma multiply_small: "\<bar>x * y\<bar> < 2 ^ 53 \<Longrightarrow> multiply (Finite x) (Finite y) = Finite (x * y)"
  by (simp add: multiply_def toNumber_small)

lemmas eval_defs = step_def init_def close_def acceptError_def acceptCounters_def acceptMetrics_def
  reportFeedback_def onNotificationsChanged_def trigger_def timerFire_def response_def continue_def
  complete_def runJob_def handler_def runJobLater_def armTimer_def runHook_def stopScheduledJob_def
  jobBody_def checkVersion_def reportCounters_def reportMetrics_def reportError_def serial_def
  errorPayloads_def request_def fullUrl_def schedule_def register_def construct_def defaultConfig_def
  jobNames_def truthy_def parseInt_def isWhiteSpace_def digitValue_def isDigitOf_def digitsValue_def
  getErrorString_def recordError_def objectPrototypeKeys_def activateNewVersionInfo_def
  setTask_def dropTask_def sampleEnv_def idOnlyEnv_def initRun_def flushRun_def orderRun_def
  doubleInitRun_def throwRun_def overrideEnv_def ownEntries_def arrayIndex_def multiply_def isNaN_def
  toNumber_small Let_def


section \<open>Reading an interval override\<close>






















lemma register_cfg [simp]: "jobConfigs (register m h s) = jobConfigs s" "env (register m h s) = env s"
  by (simp_all add: register_def Let_def)




lemma construct_env [simp]: "env (construct e nm ver) = e"
  by (simp add: construct_def Let_def)









section \<open>Feedback and notifications\<close>

text \<open>
  Claim C10. \<^verbatim>\<open>reportFeedback\<close> on a client whose identity token is absent (or empty)
  returns with the client unchanged: no post, nothing raised. With the token present it
  hands exactly one post to the HTTP client, to \<^verbatim>\<open>report/feedback\<close> under the base
  address, with the body \<^verbatim>\<open>{id, feedbackId, answers}\<close>; the post then awaits its response
  (unless the HTTP client raised), and every other field of the client (pending errors,
  snapshots, timers, notification state) is as before.
\<close>

theorem C10_reportFeedback:
  "(\<not> truthy (clientId s) \<longrightarrow> reportFeedback f a s = s) \<and>
   (truthy (clientId s) \<longrightarrow>
      (\<exists>i. clientId s = Some i \<and>
         reportFeedback f a s =
           s\<lparr>requests := requests s @
                 [\<lparr>url = (case env s ''WORLDVIOUS_URL'' of None \<Rightarrow> ''undefined'' | Some b \<Rightarrow> b)
                          @ ''/report/feedback'',
                   payload = FeedbackData i f a\<rparr>],
              pending := (if postThrows s then pending s else pending s @ [Feedback])\<rparr>))"
  by (cases "clientId s") (simp_all add: reportFeedback_def truthy_def request_def fullUrl_def)

theorem C10_witness:
  "reportFeedback ''f1'' (JStr ''yes'') (construct (\<lambda>v. None) ''p'' ''1'') = construct (\<lambda>v. None) ''p'' ''1'' \<and>
   requests (reportFeedback ''f1'' (JStr ''yes'') (construct sampleEnv ''p'' ''1'')) =
     [\<lparr>url = ''http://c/report/feedback'', payload = FeedbackData ''abc'' ''f1'' (JStr ''yes'')\<rparr>] \<and>
   errors (reportFeedback ''f1'' (JStr ''yes'') (construct sampleEnv ''p'' ''1'')) = []"
proof -
  let ?s0 = "construct (\<lambda>v. None) ''p'' ''1''"
  let ?s1 = "construct sampleEnv ''p'' ''1''"
  have a: "\<not> truthy (clientId ?s0)"
    by (simp add: eval_defs)
  have b: "truthy (clientId ?s1)" "clientId ?s1 = Some ''abc''" "env ?s1 ''WORLDVIOUS_URL'' = Some ''http://c''"
    "requests ?s1 = []" "errors ?s1 = []"
    by (simp_all add: eval_defs)
  from C10_reportFeedback[of ?s1 "''f1''" "JStr ''yes''"] b(1,2)
  have "reportFeedback ''f1'' (JStr ''yes'') ?s1 =
           ?s1\<lparr>requests := requests ?s1 @
                 [\<lparr>url = (case env ?s1 ''WORLDVIOUS_URL'' of None \<Rightarrow> ''undefined'' | Some b \<Rightarrow> b)
                          @ ''/report/feedback'',
                   payload = FeedbackData ''abc'' ''f1'' (JStr ''yes'')\<rparr>],
              pending := (if postThrows ?s1 then pending ?s1 else pending ?s1 @ [Feedback])\<rparr>"
    by simp
  then have "requests (reportFeedback ''f1'' (JStr ''yes'') ?s1) =
       [\<lparr>url = ''http://c/report/feedback'', payload = FeedbackData ''abc'' ''f1'' (JStr ''yes'')\<rparr>]"
    and "errors (reportFeedback ''f1'' (JStr ''yes'') ?s1) = []"
    using b(3,4,5) by simp_all
  moreover have "reportFeedback ''f1'' (JStr ''yes'') ?s0 = ?s0"
    using C10_reportFeedback[of ?s0 "''f1''" "JStr ''yes''"] a by blast
  ultimately show ?thesis by blast
qed

text \<open>
  Claim C8 as stated fails: \<^verbatim>\<open>_trigger\<close> calls the listener inside
  \<^verbatim>\<open>Promise.resolve(null).then(...)\<close>, so when \<^verbatim>\<open>onNotificationsChanged\<close> returns the
  listener has not been called yet; the call is queued.
\<close>

theorem C8_counterexample:
  "delivered (onNotificationsChanged 0 (construct sampleEnv ''p'' ''1'')) = [] \<and>
   pending (onNotificationsChanged 0 (construct sampleEnv ''p'' ''1'')) = [Notify 0]"
  by (simp add: eval_defs)

text \<open>
  Claim C8, amended. \<^verbatim>\<open>onNotificationsChanged(listener)\<close> appends the listener to the
  registry and queues exactly one call of it, as a promise continuation. When the
  continuation runs, the listener is called once with the notification state held at that
  moment. A version-check response that carries notifications replaces the state wholesale
  and queues exactly one call per registered listener; a response without notifications
  and a failed request leave the state as it is and queue no call.
\<close>

theorem C8_listener_notification:
  "onNotificationsChanged l s = s\<lparr>listeners := listeners s @ [l], pending := pending s @ [Notify l]\<rparr>
   \<and> (i < length (pending s) \<and> pending s ! i = Notify l \<longrightarrow>
        continue i s = s\<lparr>pending := take i (pending s) @ drop (Suc i) (pending s),
                            delivered := delivered s @ [(l, versionCheckResult s)]\<rparr>)
   \<and> (j < length (pending s) \<and> pending s ! j = Exec VersionCheck rest True \<longrightarrow>
        response j (Resolved (Some ns)) s =
          s\<lparr>versionCheckResult := ns,
            pending := (pending s)[j := Exec VersionCheck [] False] @ map Notify (listeners s)\<rparr>
        \<and> response j (Resolved None) s = s\<lparr>pending := (pending s)[j := Exec VersionCheck [] False]\<rparr>
        \<and> response j Rejected s = s\<lparr>pending := (pending s)[j := Exec VersionCheck [] False]\<rparr>)"
  by (simp add: onNotificationsChanged_def trigger_def continue_def dropTask_def response_def
      setTask_def activate_eq list_update_append1)

theorem C8_witness:
  "delivered (continue 0 (run [OnNotificationsChanged 7, Init, Continue 1, Continue 1]
                (construct sampleEnv ''p'' ''1''))) = [(7, [])] \<and>
   pending (response 2 (Resolved (Some [Message ''hello'']))
              (run [OnNotificationsChanged 7, Init, Continue 1, Continue 1]
                (construct sampleEnv ''p'' ''1'')))
     = [Notify 7, InitJobs [ReportError, ReportCounters, ReportMetrics],
        Exec VersionCheck [] False, Notify 7]"
proof -
  define s where "s = run [OnNotificationsChanged 7, Init, Continue 1, Continue 1]
                (construct sampleEnv ''p'' ''1'')"
  have p: "pending s = [Notify 7, InitJobs [ReportError, ReportCounters, ReportMetrics],
                        Exec VersionCheck [] True]"
    and d: "delivered s = []" and v: "versionCheckResult s = []" and l: "listeners s = [7]"
    unfolding s_def by (simp_all add: eval_defs)
  have h: "0 < length (pending s) \<and> pending s ! 0 = Notify 7"
          "2 < length (pending s) \<and> pending s ! 2 = Exec VersionCheck [] True"
    by (simp_all add: p)
  from C8_listener_notification[of 7 s 0 2 "[]" "[Message ''hello'']"] h
  have c: "continue 0 s = s\<lparr>pending := take 0 (pending s) @ drop (Suc 0) (pending s),
                            delivered := delivered s @ [(7, versionCheckResult s)]\<rparr>"
    and r: "response 2 (Resolved (Some [Message ''hello''])) s =
          s\<lparr>versionCheckResult := [Message ''hello''],
            pending := (pending s)[2 := Exec VersionCheck [] False] @ map Notify (listeners s)\<rparr>"
    by blast+
  have "delivered (continue 0 s) = [(7, [])]" by (simp add: c d v)
  moreover have "pending (response 2 (Resolved (Some [Message ''hello''])) s)
     = [Notify 7, InitJobs [ReportError, ReportCounters, ReportMetrics],
        Exec VersionCheck [] False, Notify 7]"
    by (simp add: r p l)
  ultimately show ?thesis unfolding s_def by blast
qed


section \<open>Shutdown\<close>

lemma env_register: "env (register n h s) = env s"   by (simp_all add: register_def Let_def)
lemma env_schedule: "env (schedule s) = env s"   by (simp_all add: schedule_def env_register)

lemma runJob_closed: "closed s \<Longrightarrow> runJob n x s = s"
  by (simp add: runJob_def)

lemma register_frame:
  "closed (register n h s) = closed s" "timers (register n h s) = timers s"
  "started (register n h s) = started s" "hookCalls (register n h s) = hookCalls s"
  "requests (register n h s) = requests s" "pending (register n h s) = pending s"
  by (simp_all add: register_def Let_def)

lemma schedule_frame:
  "closed (schedule s) = closed s" "timers (schedule s) = timers s"
  "started (schedule s) = started s" "hookCalls (schedule s) = hookCalls s"
  "requests (schedule s) = requests s" "pending (schedule s) = pending s"
  by (simp_all add: schedule_def register_frame)

lemma fullUrl_eq: "fullUrl s a = fullUrl s b \<longleftrightarrow> a = b"
  by (simp add: fullUrl_def)

lemma queued_simps [simp]:
  "queued (Exec n rest aw) = (if n = ReportError \<and> aw then rest else [])"
  "queued InitSchedule = []" "queued (InitJobs ns) = []" "queued (Notify l) = []" "queued Feedback = []"
  by (simp_all add: queued_def)

lemma queued_Notify [simp]: "concat (map queued (map Notify ls)) = []"
  by (induction ls) simp_all

lemma count_nth_le:
  "i < length xs \<Longrightarrow> count_list (f (xs ! i)) p \<le> count_list (concat (map f xs)) p"
proof (induction xs arbitrary: i)
  case Nil then show ?case by simp
next
  case (Cons x xs) then show ?case by (cases i) (simp_all add: trans_le_add2)
qed

lemma count_update:
  "i < length xs \<Longrightarrow>
   count_list (concat (map f (xs[i := y]))) p + count_list (f (xs ! i)) p
     = count_list (concat (map f xs)) p + count_list (f y) p"
proof (induction xs arbitrary: i)
  case Nil then show ?case by simp
next
  case (Cons x xs) then show ?case by (cases i) simp_all
qed

lemma count_remove:
  "i < length xs \<Longrightarrow>
   count_list (concat (map f (take i xs))) p + count_list (concat (map f (drop (Suc i) xs))) p
     + count_list (f (xs ! i)) p
     = count_list (concat (map f xs)) p"
proof (induction xs arbitrary: i)
  case Nil then show ?case by simp
next
  case (Cons x xs)
  show ?case
  proof (cases i)
    case 0 then show ?thesis by simp
  next
    case (Suc j)
    then have "j < length xs" using Cons.prems by simp
    from Cons.IH[OF this] show ?thesis using Suc by simp
  qed
qed

lemma waiting_setTask:
  "i < length (pending s) \<Longrightarrow>
   count_list (waiting (setTask i t s)) p + count_list (queued (pending s ! i)) p
     = count_list (waiting s) p + count_list (queued t) p"
  by (simp add: waiting_def setTask_def count_update)

lemma waiting_dropTask:
  "i < length (pending s) \<Longrightarrow>
   count_list (waiting (dropTask i s)) p + count_list (queued (pending s ! i)) p
     = count_list (waiting s) p"
  by (simp add: waiting_def dropTask_def count_remove)

lemma waiting_pending: "pending s' = pending s \<Longrightarrow> waiting s' = waiting s"
  by (simp add: waiting_def)

lemma errorPosts_simps [simp]:
  "errorPosts s [] = []"
  "errorPosts s [\<lparr>url = fullUrl s ''report/error'', payload = p\<rparr>] = [p]"
  "errorPosts s [\<lparr>url = fullUrl s ''report/feedback'', payload = p\<rparr>] = []"
  "errorPosts s (xs @ ys) = errorPosts s xs @ errorPosts s ys"
  by (simp_all add: errorPosts_def fullUrl_eq)

lemma waiting_response:
  assumes "requests (response i out s) = requests s @ new"
  shows "count_list (errorPosts s new) p + count_list (waiting (response i out s)) p
           \<le> count_list (waiting s) p"
proof (cases "i < length (pending s)")
  case False
  then show ?thesis using assms by (simp add: response_def)
next
  case True
  note u = waiting_setTask[OF True, of _ p] and d = waiting_dropTask[OF True, of p]
  show ?thesis
  proof (cases "pending s ! i")
    case (Exec n rest aw)
    show ?thesis
    proof (cases "aw \<and> n = ReportError \<and> rest \<noteq> [] \<and> out \<noteq> Rejected")
      case True
      then obtain p' ps r where r: "rest = p' # ps" "out = Resolved r" "aw" "n = ReportError"
        by (cases rest; cases out) auto
      let ?t = "if postThrows s then Exec n [] False else Exec n ps True"
      have e: "response i out s = setTask i ?t (request ''report/error'' p' s)"
        using \<open>i < length (pending s)\<close> Exec r by (simp add: response_def)
      have n: "new = [\<lparr>url = fullUrl s ''report/error'', payload = p'\<rparr>]"
        using assms unfolding e by (simp add: setTask_def request_def)
      have w: "waiting (setTask i ?t (request ''report/error'' p' s)) = waiting (setTask i ?t s)"
        by (rule waiting_pending) (simp add: setTask_def request_def)
      show ?thesis unfolding e w n using u[of ?t] Exec r by (simp split: if_splits)
    next
      case False
      have "response i out s = s \<or> (\<exists>ns. response i out s = setTask i (Exec n [] False) s
             \<or> response i out s = setTask i (Exec n [] False) (activateNewVersionInfo ns s))"
        using \<open>i < length (pending s)\<close> Exec False
        by (cases n; cases out; cases rest) (auto simp: response_def split: option.splits)
      then consider "response i out s = s" | "response i out s = setTask i (Exec n [] False) s"
        | ns where "response i out s = setTask i (Exec n [] False) (activateNewVersionInfo ns s)"
        by blast
      then show ?thesis
      proof cases
        case 1 then show ?thesis using assms by simp
      next
        case 2
        then have "new = []" using assms by (simp add: setTask_def)
        then show ?thesis unfolding 2 using u[of "Exec n [] False"] by simp
      next
        case 3
        then have n: "new = []" using assms by (simp add: setTask_def activate_eq)
        have l: "i < length (pending (activateNewVersionInfo ns s))" using True by (simp add: activate_eq)
        have nth: "pending (activateNewVersionInfo ns s) ! i = pending s ! i"
          using True by (simp add: activate_eq nth_append)
        have w: "waiting (activateNewVersionInfo ns s) = waiting s" by (simp add: waiting_def activate_eq)
        show ?thesis unfolding 3 n using waiting_setTask[OF l, of "Exec n [] False" p]
          by (simp add: nth w)
      qed
    qed
  next
    case Feedback
    then have e: "response i out s = dropTask i s" using True by (simp add: response_def)
    then have "new = []" using assms by (simp add: dropTask_def)
    then show ?thesis unfolding e using d Feedback by simp
  qed (use True assms in \<open>simp_all add: response_def\<close>)
qed

lemma waiting_continue:
  assumes "closed s" "requests (continue i s) = requests s @ new"
  shows "count_list (errorPosts s new) p + count_list (waiting (continue i s)) p
           \<le> count_list (waiting s) p"
proof (cases "i < length (pending s)")
  case False
  then show ?thesis using assms by (simp add: continue_def)
next
  case True
  note u = waiting_setTask[OF True, of _ p] and d = waiting_dropTask[OF True, of p]
  show ?thesis
  proof (cases "pending s ! i")
    case InitSchedule
    have e: "continue i s = setTask i (InitJobs jobNames) (schedule s)"
      using True InitSchedule by (simp add: continue_def)
    have n: "new = []" using assms unfolding e by (simp add: setTask_def schedule_frame)
    have w: "waiting (setTask i (InitJobs jobNames) (schedule s)) = waiting (setTask i (InitJobs jobNames) s)"
      by (rule waiting_pending) (simp add: setTask_def schedule_frame)
    show ?thesis unfolding e n w using u[of "InitJobs jobNames"] InitSchedule by simp
  next
    case (InitJobs ns)
    show ?thesis
    proof (cases ns)
      case Nil
      then have e: "continue i s = dropTask i s" using True InitJobs by (simp add: continue_def)
      then have "new = []" using assms by (simp add: dropTask_def)
      then show ?thesis unfolding e using d InitJobs by simp
    next
      case (Cons m rest)
      have c: "closed (setTask i (InitJobs rest) s)" using assms(1) by (simp add: setTask_def)
      have e: "continue i s = setTask i (InitJobs rest) s"
        using True InitJobs Cons by (simp add: continue_def runJob_closed[OF c])
      then have "new = []" using assms by (simp add: setTask_def)
      then show ?thesis unfolding e using u[of "InitJobs rest"] InitJobs by simp
    qed
  next
    case (Exec n rest aw)
    show ?thesis
    proof (cases aw)
      case True
      then show ?thesis using \<open>i < length (pending s)\<close> Exec assms by (simp add: continue_def)
    next
      case False
      have c: "closed ((dropTask i s)\<lparr>jobRuntime := (jobRuntime (dropTask i s))(n := Some False)\<rparr>)"
        using assms(1) by (simp add: dropTask_def)
      have e: "continue i s = (dropTask i s)\<lparr>jobRuntime := (jobRuntime (dropTask i s))(n := Some False)\<rparr>"
        using True Exec False by (simp add: continue_def complete_def runJob_closed[OF c])
      then have n: "new = []" using assms by (simp add: dropTask_def)
      have w: "waiting ((dropTask i s)\<lparr>jobRuntime := (jobRuntime (dropTask i s))(n := Some False)\<rparr>)
                 = waiting (dropTask i s)"
        by (rule waiting_pending) simp
      show ?thesis unfolding e n w using d Exec False by simp
    qed
  next
    case (Notify l)
    have e: "continue i s = (dropTask i s)\<lparr>delivered := delivered s @ [(l, versionCheckResult s)]\<rparr>"
      using True Notify by (simp add: continue_def)
    then have n: "new = []" using assms by (simp add: dropTask_def)
    have w: "waiting ((dropTask i s)\<lparr>delivered := delivered s @ [(l, versionCheckResult s)]\<rparr>)
                 = waiting (dropTask i s)"
      by (rule waiting_pending) simp
    show ?thesis unfolding e n w using d Notify by simp
  next
    case Feedback
    then show ?thesis using True assms by (simp add: continue_def)
  qed
qed

lemma waiting_step:
  assumes "closed s" "\<forall>n. timers s n = None" "requests (step ev s) = requests s @ new"
  shows "count_list (errorPosts s new) p + count_list (waiting (step ev s)) p
           \<le> count_list (waiting s) p"
proof (cases ev)
  case (Response i out)
  then show ?thesis using waiting_response[of i out s new p] assms(3) by (simp add: step_def)
next
  case (Continue i)
  then show ?thesis using waiting_continue[OF assms(1), of i new p] assms(3) by (simp add: step_def)
next
  case (AcceptError e)
  then show ?thesis using assms
    by (auto simp: step_def acceptError_def runJob_closed Let_def waiting_def split: if_splits)
next
  case (ReportFeedback f a)
  then show ?thesis using assms
    by (auto simp: step_def reportFeedback_def request_def Let_def waiting_def split: if_splits)
qed (use assms in \<open>auto simp: step_def init_def close_def acceptCounters_def acceptMetrics_def
       onNotificationsChanged_def trigger_def timerFire_def waiting_def\<close>)


text \<open>
  On a closed client without timers a step starts nothing; what it posts goes to the
  feedback or the error address, and an error post takes its payload from those waiting.
\<close>

lemma step_closed:
  assumes "closed s" "\<forall>n. timers s n = None"
  shows "closed (step ev s) \<and> (\<forall>n. timers (step ev s) n = None) \<and> started (step ev s) = started s
     \<and> hookCalls (step ev s) = hookCalls s
     \<and> (\<exists>new. requests (step ev s) = requests s @ new
            \<and> list_all (\<lambda>r. url r = fullUrl s ''report/feedback'' \<or> url r = fullUrl s ''report/error'') new)
     \<and> env (step ev s) = env s"
proof (cases ev)
  case (Response i out)
  then show ?thesis using assms 
    by (auto simp: step_def response_def setTask_def dropTask_def activate_eq request_def
        split: Task.splits ReportActions.splits Outcome.splits option.splits list.splits)
next
  case (Continue i)
  then show ?thesis using assms
    by (auto simp: step_def continue_def setTask_def dropTask_def complete_def runJob_closed schedule_frame env_schedule
        split: Task.splits list.splits)
next
  case (AcceptError e)
  then show ?thesis using assms by (simp add: step_def acceptError_def runJob_closed Let_def)
next
  case (ReportFeedback f a)
  then show ?thesis using assms by (simp add: step_def reportFeedback_def request_def Let_def)
qed (use assms in \<open>simp_all add: step_def init_def close_def acceptCounters_def acceptMetrics_def
       onNotificationsChanged_def trigger_def timerFire_def\<close>)

lemma fullUrl_env: "env s' = env s \<Longrightarrow> fullUrl s' = fullUrl s"
  by (rule ext) (simp add: fullUrl_def)

lemma errorPosts_env: "env s' = env s \<Longrightarrow> errorPosts s' = errorPosts s"
  by (rule ext) (simp add: errorPosts_def fullUrl_def)

lemma run_closed:
  "closed s \<Longrightarrow> \<forall>n. timers s n = None \<Longrightarrow>
   closed (run evs s) \<and> (\<forall>n. timers (run evs s) n = None) \<and> started (run evs s) = started s
     \<and> hookCalls (run evs s) = hookCalls s
     \<and> (\<exists>new. requests (run evs s) = requests s @ new
           \<and> list_all (\<lambda>r. url r = fullUrl s ''report/feedback'' \<or> url r = fullUrl s ''report/error'') new
           \<and> (\<forall>p. count_list (errorPosts s new) p + count_list (waiting (run evs s)) p
                   \<le> count_list (waiting s) p))"
proof (induction evs arbitrary: s)
  case Nil
  then show ?case by simp
next
  case (Cons ev evs)
  let ?ok = "\<lambda>s r. url r = fullUrl s ''report/feedback'' \<or> url r = fullUrl s ''report/error''"
  from step_closed[OF Cons.prems, of ev] obtain new1 where
    st: "closed (step ev s)" "\<forall>n. timers (step ev s) n = None" "started (step ev s) = started s"
      "hookCalls (step ev s) = hookCalls s" "requests (step ev s) = requests s @ new1"
      "list_all (?ok s) new1" "env (step ev s) = env s"
    by (elim exE conjE)
  have w1: "count_list (errorPosts s new1) p + count_list (waiting (step ev s)) p
              \<le> count_list (waiting s) p" for p
    using Cons.prems st(5) by (rule waiting_step)
  from Cons.IH[OF st(1,2)] obtain new2 where
    ih: "closed (run evs (step ev s))" "\<forall>n. timers (run evs (step ev s)) n = None"
      "started (run evs (step ev s)) = started (step ev s)"
      "hookCalls (run evs (step ev s)) = hookCalls (step ev s)"
      "requests (run evs (step ev s)) = requests (step ev s) @ new2"
      "list_all (?ok (step ev s)) new2"
      "\<forall>p. count_list (errorPosts (step ev s) new2) p + count_list (waiting (run evs (step ev s))) p
                   \<le> count_list (waiting (step ev s)) p"
    by (elim exE conjE)
  have ok: "list_all (?ok s) (new1 @ new2)"
    using st(6) ih(6) by (simp add: fullUrl_env[OF st(7)])
  have w: "count_list (errorPosts s (new1 @ new2)) p + count_list (waiting (run evs (step ev s))) p
              \<le> count_list (waiting s) p" for p
    using w1[of p] ih(7)[rule_format, of p] by (simp add: errorPosts_env[OF st(7)])
  have r: "requests (run evs (step ev s)) = requests s @ (new1 @ new2)" using st(5) ih(5) by simp
  show ?case
    unfolding run.simps
    using ih(1,2) st(3,4) ih(3,4) r ok w by (intro conjI exI[of _ "new1 @ new2"] allI) simp_all
qed

lemma count_mem: "count_list xs x \<le> count_list ys x \<Longrightarrow> x \<in> set xs \<Longrightarrow> x \<in> set ys"
  using count_list_0_iff[of xs x] count_list_0_iff[of ys x] by (cases "count_list ys x = 0") simp_all

lemma close_frame:
  "fullUrl (close s) = fullUrl s" "errorPosts (close s) = errorPosts s" "waiting (close s) = waiting s"
  "requests (close s) = requests s" "started (close s) = started s" "hookCalls (close s) = hookCalls s"
  "closed (close s)" "\<forall>n. timers (close s) n = None"
proof -
  have e: "env (close s) = env s" by (simp add: close_def)
  show "fullUrl (close s) = fullUrl s" using e by (rule fullUrl_env)
  show "errorPosts (close s) = errorPosts s" using e by (rule errorPosts_env)
  show "waiting (close s) = waiting s"
    "requests (close s) = requests s" "started (close s) = started s" "hookCalls (close s) = hookCalls s"
    "closed (close s)" "\<forall>n. timers (close s) n = None"
    by (simp_all add: waiting_def close_def)
qed

text \<open>
  Claim C3 as stated fails on its second half: after \<^verbatim>\<open>close()\<close> posts are still made.
  \<^verbatim>\<open>reportFeedback\<close> does not look at \<^verbatim>\<open>closed\<close>; and an error flush with two payloads
  that is in flight when the client is closed sends its second payload when the first is
  answered.
\<close>

theorem C3_counterexample:
  "requests (run [Close, ReportFeedback ''f1'' JNull] (run initRun (construct sampleEnv ''p'' ''1'')))
     = requests (run initRun (construct sampleEnv ''p'' ''1''))
       @ [\<lparr>url = ''http://c/report/feedback'', payload = FeedbackData ''abc'' ''f1'' JNull\<rparr>]
   \<and> requests (run (initRun @ [AcceptError (Thrown None ''a''), AcceptError (Thrown None ''b''),
                   AcceptError (Thrown None ''c''), Response 0 (Resolved None), Continue 0,
                   Elapse 3000, TimerFire ReportError, Close, Response 0 (Resolved None)])
                (construct sampleEnv ''p'' ''1''))
     = requests (run (initRun @ [AcceptError (Thrown None ''a''), AcceptError (Thrown None ''b''),
                   AcceptError (Thrown None ''c''), Response 0 (Resolved None), Continue 0,
                   Elapse 3000, TimerFire ReportError, Close])
                (construct sampleEnv ''p'' ''1''))
       @ [\<lparr>url = ''http://c/report/error'', payload = ErrorData (Some ''abc'') ''p'' ''1'' ''c'' 1\<rparr>]"
  by (simp add: eval_defs)

text \<open>
  Claim C3, amended. After \<^verbatim>\<open>close()\<close>, whatever happens (timers, responses,
  continuations, \<^verbatim>\<open>acceptError\<close>, \<^verbatim>\<open>init\<close>, time passing), the client stays closed, no
  timer is ever pending again, no job body is invoked (scheduled or immediate) and no
  pre-arm hook runs. Posts can still be made, of two kinds only: a post to
  \<^verbatim>\<open>report/feedback\<close> (\<^verbatim>\<open>reportFeedback\<close> does not look at \<^verbatim>\<open>closed\<close>), and a post to
  \<^verbatim>\<open>report/error\<close> of a payload that, when \<^verbatim>\<open>close()\<close> was called, was waiting in an error
  flush in flight. No waiting payload is posted more often than it was waiting: for every
  payload, the posts of it after \<^verbatim>\<open>close()\<close> are at most as many as its occurrences among
  the waiting payloads.
\<close>

theorem C3_after_close:
  "closed (run evs (close s)) \<and> (\<forall>n. timers (run evs (close s)) n = None)
   \<and> started (run evs (close s)) = started s
   \<and> hookCalls (run evs (close s)) = hookCalls s
   \<and> (\<exists>new. requests (run evs (close s)) = requests s @ new \<and> list_all (afterClose s) new
         \<and> (\<forall>p. count_list (errorPosts s new) p \<le> count_list (waiting s) p))"
proof -
  note rc = run_closed[OF close_frame(7,8), of evs s, unfolded close_frame(1-6)]
  from rc obtain new where
    r: "closed (run evs (close s))" "\<forall>n. timers (run evs (close s)) n = None"
      "started (run evs (close s)) = started s" "hookCalls (run evs (close s)) = hookCalls s"
      "requests (run evs (close s)) = requests s @ new"
      "list_all (\<lambda>r. url r = fullUrl s ''report/feedback'' \<or> url r = fullUrl s ''report/error'') new"
      "\<forall>p. count_list (errorPosts s new) p + count_list (waiting (run evs (close s))) p
                   \<le> count_list (waiting s) p"
    by (elim exE conjE)
  have cnt: "count_list (errorPosts s new) p \<le> count_list (waiting s) p" for p
    using r(7)[rule_format, of p] by (rule add_leD1)
  have "afterClose s q" if q: "q \<in> set new" for q
  proof (cases "url q = fullUrl s ''report/error''")
    case True
    have "payload q \<in> set (errorPosts s new)"
      unfolding errorPosts_def using q True by (simp add: image_iff) (rule exI[of _ q], simp)
    then have "payload q \<in> set (waiting s)" by (rule count_mem[OF cnt])
    then show ?thesis unfolding afterClose_def using True by (intro disjI2 conjI)
  next
    case False
    have "url q = fullUrl s ''report/feedback'' \<or> url q = fullUrl s ''report/error''"
      using r(6) q unfolding list_all_iff by (rule bspec)
    with False have "url q = fullUrl s ''report/feedback''" by simp
    then show ?thesis unfolding afterClose_def by (rule disjI1)
  qed
  then have la: "list_all (afterClose s) new" unfolding list_all_iff by (rule ballI)
  have "\<forall>p. count_list (errorPosts s new) p \<le> count_list (waiting s) p" using cnt by (rule allI)
  with r(5) la have "\<exists>new. requests (run evs (close s)) = requests s @ new \<and> list_all (afterClose s) new
         \<and> (\<forall>p. count_list (errorPosts s new) p \<le> count_list (waiting s) p)"
    by (intro exI[of _ new] conjI)
  with r(1-4) show ?thesis by (intro conjI)
qed


section \<open>The error aggregator\<close>

lemma errorsOk_Nil: "errorsOk []"
  by (simp add: errorsOk_def)

lemma map_of_fst: "map_of errs k = None \<longleftrightarrow> k \<notin> fst ` set errs"
  by (simp add: map_of_eq_None_iff)

lemma errorsOk_recordError: "errorsOk errs \<Longrightarrow> errorsOk (recordError k errs)"
proof (cases "map_of errs k")
  case None
  assume ok: "errorsOk errs"
  have "k \<notin> fst ` set errs" using None by (simp add: map_of_eq_None_iff)
  then show "errorsOk (recordError k errs)" using ok None
    by (auto simp: recordError_def errorsOk_def)
next
  case (Some info)
  assume ok: "errorsOk errs"
  define f where "f = (\<lambda>(k', i :: ErrorInfo). if k' = k then (k', i\<lparr>count := count i + 1\<rparr>) else (k', i))"
  have f: "fst (f p) = fst p" "error (snd (f p)) = error (snd p)" "count (snd p) \<le> count (snd (f p))" for p
    by (cases p; simp add: f_def)+
  have m: "map fst (map f errs) = map fst errs"
    by (induction errs) (simp_all add: f)
  have "errorsOk (map f errs)"
    unfolding errorsOk_def m
  proof (intro conjI ballI)
    show "distinct (map fst errs)" using ok by (simp add: errorsOk_def)
  next
    fix q assume "q \<in> set (map f errs)"
    then obtain p where p: "p \<in> set errs" "q = f p" by auto
    have "error (snd p) = fst p" "0 < count (snd p)" "fst p \<notin> set objectPrototypeKeys"
      using ok p(1) by (simp_all add: errorsOk_def)
    then show "error (snd q) = fst q" "0 < count (snd q)" "fst q \<notin> set objectPrototypeKeys"
      using f(3)[of p] by (simp_all add: p(2) f(1,2))
  qed
  then show "errorsOk (recordError k errs)" using Some
    by (simp add: recordError_def f_def)
qed

lemma errors_jobBody: "errors (fst (jobBody m s)) = errors s \<or> errors (fst (jobBody m s)) = []"
  by (cases m) (simp_all add: jobBody_def checkVersion_def reportCounters_def reportMetrics_def
      reportError_def serial_def request_def split: list.splits)

lemma errors_armTimer [simp]: "errors (armTimer n job s) = errors s"
  by (simp add: armTimer_eq)

lemma errors_runJobLater [simp]: "errors (runJobLater n s) = errors s"
  by (simp add: runJobLater_def split: option.splits)

lemma errors_stop [simp]: "errors (stopScheduledJob n s) = errors s"
  by (simp add: stopScheduledJob_def split: option.splits)

lemma errors_handler: "errors (handler n job s) = errors s \<or> errors (handler n job s) = []"
  using errors_jobBody[of "cb job" "s\<lparr>jobRuntime := (jobRuntime s)(n := Some True), started := started s @ [n]\<rparr>"]
  by (auto simp: handler_eq Let_def split: option.splits BodyResult.splits)

lemma errors_runJob: "errors (runJob n x s) = errors s \<or> errors (runJob n x s) = []"
  using errors_handler[of n _ "stopScheduledJob n s"]
  by (cases x) (auto simp: runJob_False runJob_def split: option.splits)

lemma errors_schedule [simp]: "errors (schedule s) = errors s"
  by (simp add: schedule_def register_def Let_def)

lemma errors_step:
  "errors (step ev s) = errors s \<or> errors (step ev s) = []
   \<or> (\<exists>e. ev = AcceptError e \<and> errors (step ev s) = recordError (getErrorString e) (errors s))"
proof (cases ev)
  case (AcceptError e)
  then show ?thesis
    using errors_runJob[of ReportError True "s\<lparr>errors := recordError (getErrorString e) (errors s), isFirstErrorReported := True\<rparr>"]
    by (auto simp: step_def acceptError_def Let_def)
next
  case (TimerFire n)
  then show ?thesis using errors_handler[of n _ "s\<lparr>timers := (timers s)(n := None)\<rparr>"]
    by (auto simp: step_def timerFire_def split: option.splits)
next
  case (Response i out)
  then show ?thesis
    by (auto simp: step_def response_def setTask_def dropTask_def activate_eq request_def
        split: Task.splits ReportActions.splits Outcome.splits option.splits list.splits)
next
  case (Continue i)
  show ?thesis
  proof (cases "i < length (pending s)")
    case False then show ?thesis using Continue by (simp add: step_def continue_def)
  next
    case True
    show ?thesis
    proof (cases "pending s ! i")
      case (InitJobs ns)
      show ?thesis
      proof (cases ns)
        case Nil then show ?thesis using Continue True InitJobs by (simp add: step_def continue_def dropTask_def)
      next
        case (Cons m rest)
        then show ?thesis using Continue True InitJobs
            errors_runJob[of m "shouldStartImmediately (jobConfigs s m)" "setTask i (InitJobs rest) s"]
          by (auto simp: step_def continue_def setTask_def)
      qed
    next
      case (Exec n rest aw)
      then show ?thesis using Continue True
        by (simp add: step_def continue_def complete_def runJob_False dropTask_def)
    qed (use Continue True in \<open>simp_all add: step_def continue_def setTask_def dropTask_def\<close>)
  qed
qed (simp_all add: step_def init_def close_def acceptCounters_def acceptMetrics_def
       reportFeedback_def request_def Let_def onNotificationsChanged_def trigger_def)

lemma errorsOk_step: "errorsOk (errors s) \<Longrightarrow> errorsOk (errors (step ev s))"
  using errors_step[of ev s] by (auto simp: errorsOk_Nil errorsOk_recordError)

lemma errorsOk_run: "errorsOk (errors s) \<Longrightarrow> errorsOk (errors (run evs s))"
  by (induction evs arbitrary: s) (simp_all add: errorsOk_step)

lemma errorsOk_reachable: "errorsOk (errors (run evs (construct e nm ver)))"
  by (rule errorsOk_run) (simp add: construct_def Let_def errorsOk_Nil)

text \<open>The enumeration of the own properties is a rearrangement of them.\<close>

lemma ownEntries_set: "set (ownEntries ps) = set ps"
  by (auto simp: ownEntries_def)

lemma ownEntries_distinct: "distinct (map fst ps) \<Longrightarrow> distinct (map fst (ownEntries ps))"
proof -
  assume "distinct (map fst ps)"
  then have d: "distinct ps" and i: "inj_on fst (set ps)" by (simp_all add: distinct_map)
  have "distinct (ownEntries ps)" using d by (auto simp: ownEntries_def)
  then show ?thesis using i by (simp add: distinct_map ownEntries_set)
qed

lemma ownEntries_Nil: "ownEntries ps = [] \<longleftrightarrow> ps = []"
  using ownEntries_set[of ps] by (metis set_empty)

lemma errorPayloads_keys:
  "errorsOk (errors s) \<Longrightarrow>
   errorPayloads s = map (\<lambda>(k, info). ErrorData (clientId s) (name s) (version s) k (count info))
                       (ownEntries (errors s))"
  by (auto simp: errorPayloads_def errorsOk_def ownEntries_set)

lemma errorPayloads_Nil: "errorPayloads s = [] \<longleftrightarrow> errors s = []"
  by (simp add: errorPayloads_def ownEntries_Nil)

lemma recordError_fresh:
  "errorsOk errs \<Longrightarrow> k \<in> set (map fst errs) \<Longrightarrow> recordError k [] = [(k, \<lparr>error = k, count = 1\<rparr>)]"
  by (auto simp: recordError_def errorsOk_def)

text \<open>
  Claim C2. In every state \<open>s\<close> a client can reach, the error flush \<^verbatim>\<open>_reportError\<close>
  behaves as follows. With an empty pending map it returns at once: no post, the client
  unchanged. Otherwise it builds one payload per own property of the map, in the order
  in which \<^verbatim>\<open>_.values\<close> enumerates them, carrying the identity, the process name, the
  version, the signature and its count; the enumeration is a rearrangement of the map and
  the keys are distinct, so this is exactly one payload per distinct signature. The
  state in which the first payload has been handed to the HTTP client already has the
  empty map, and the other payloads wait. The payloads go out one at a time: the response
  to one sends exactly the next. A failed send ends the flush and changes neither the map
  nor the posts, so nothing is restored; recording a flushed signature again on the empty
  map gives it the count 1.
\<close>

theorem C2_error_flush:
  assumes "s = run evs (construct e nm ver)"
  shows "(errors s = [] \<longrightarrow> reportError s = (s, Returned [] False))
   \<and> (errors s \<noteq> [] \<longrightarrow>
        reportError s =
          (s\<lparr>errors := [],
             requests := requests s @ [\<lparr>url = fullUrl s ''report/error'',
                                        payload = hd (errorPayloads s)\<rparr>]\<rparr>,
           if postThrows s then Returned [] False else Returned (tl (errorPayloads s)) True))
   \<and> errorPayloads s =
        map (\<lambda>(k, info). ErrorData (clientId s) (name s) (version s) k (count info))
          (ownEntries (errors s))
   \<and> set (ownEntries (errors s)) = set (errors s)
   \<and> distinct (map fst (ownEntries (errors s)))
   \<and> distinct (map fst (errors s))
   \<and> (\<forall>i p ps r. i < length (pending s) \<and> pending s ! i = Exec ReportError (p # ps) True \<longrightarrow>
        response i (Resolved r) s =
          s\<lparr>requests := requests s @ [\<lparr>url = fullUrl s ''report/error'', payload = p\<rparr>],
            pending := (pending s)[i := if postThrows s then Exec ReportError [] False
                                         else Exec ReportError ps True]\<rparr>)
   \<and> (\<forall>i rest. i < length (pending s) \<and> pending s ! i = Exec ReportError rest True \<longrightarrow>
        response i Rejected s = s\<lparr>pending := (pending s)[i := Exec ReportError [] False]\<rparr>)
   \<and> (\<forall>k \<in> set (map fst (errors s)). recordError k [] = [(k, \<lparr>error = k, count = 1\<rparr>)])"
proof -
  have ok: "errorsOk (errors s)" unfolding assms by (rule errorsOk_reachable)
  have dk: "distinct (map fst (errors s))" using ok by (simp add: errorsOk_def)
  have a: "errors s = [] \<longrightarrow> reportError s = (s, Returned [] False)"
    by (simp add: reportError_def)
  have b: "errors s \<noteq> [] \<longrightarrow>
        reportError s =
          (s\<lparr>errors := [],
             requests := requests s @ [\<lparr>url = fullUrl s ''report/error'',
                                        payload = hd (errorPayloads s)\<rparr>]\<rparr>,
           if postThrows s then Returned [] False else Returned (tl (errorPayloads s)) True)"
  proof
    assume n: "errors s \<noteq> []"
    then obtain p ps where ps: "errorPayloads s = p # ps"
      using errorPayloads_Nil[of s] by (cases "errorPayloads s") simp_all
    have "errorPayloads (s\<lparr>errors := []\<rparr>) = []" by (simp add: errorPayloads_Nil)
    show "reportError s =
          (s\<lparr>errors := [],
             requests := requests s @ [\<lparr>url = fullUrl s ''report/error'',
                                        payload = hd (errorPayloads s)\<rparr>]\<rparr>,
           if postThrows s then Returned [] False else Returned (tl (errorPayloads s)) True)"
      using n by (simp add: reportError_def serial_def request_def fullUrl_def ps)
  qed
  have c: "\<forall>i p ps r. i < length (pending s) \<and> pending s ! i = Exec ReportError (p # ps) True \<longrightarrow>
        response i (Resolved r) s =
          s\<lparr>requests := requests s @ [\<lparr>url = fullUrl s ''report/error'', payload = p\<rparr>],
            pending := (pending s)[i := if postThrows s then Exec ReportError [] False
                                         else Exec ReportError ps True]\<rparr>"
    by (simp add: response_def setTask_def request_def)
  have d: "\<forall>i rest. i < length (pending s) \<and> pending s ! i = Exec ReportError rest True \<longrightarrow>
        response i Rejected s = s\<lparr>pending := (pending s)[i := Exec ReportError [] False]\<rparr>"
    by (simp add: response_def setTask_def)
  have f: "\<forall>k \<in> set (map fst (errors s)). recordError k [] = [(k, \<lparr>error = k, count = 1\<rparr>)]"
    using recordError_fresh[OF ok] by blast
  show ?thesis
    by (intro conjI a b c d f dk errorPayloads_keys[OF ok] ownEntries_set ownEntries_distinct[OF dk])
qed

theorem C2_witness:
  "fst (reportError (run flushRun (construct sampleEnv ''p'' ''1''))) =
     (run flushRun (construct sampleEnv ''p'' ''1''))
       \<lparr>errors := [],
        requests := requests (run flushRun (construct sampleEnv ''p'' ''1'')) @
           [\<lparr>url = ''http://c/report/error'', payload = ErrorData (Some ''abc'') ''p'' ''1'' ''d'' 1\<rparr>]\<rparr>
   \<and> requests (response 0 (Resolved None) (run flushRun (construct sampleEnv ''p'' ''1''))) =
       requests (run flushRun (construct sampleEnv ''p'' ''1'')) @
           [\<lparr>url = ''http://c/report/error'', payload = ErrorData (Some ''abc'') ''p'' ''1'' ''c'' 1\<rparr>]
   \<and> errors (response 0 Rejected (run flushRun (construct sampleEnv ''p'' ''1''))) =
       [(''d'', \<lparr>error = ''d'', count = 1\<rparr>)]
   \<and> requests (response 0 Rejected (run flushRun (construct sampleEnv ''p'' ''1''))) =
       requests (run flushRun (construct sampleEnv ''p'' ''1''))
   \<and> reportError (construct sampleEnv ''p'' ''1'') = (construct sampleEnv ''p'' ''1'', Returned [] False)
   \<and> map fst (errors (run orderRun (construct sampleEnv ''p'' ''1''))) = [''b'', ''7'', ''1'']
   \<and> reportError (run orderRun (construct sampleEnv ''p'' ''1'')) =
       ((run orderRun (construct sampleEnv ''p'' ''1''))
          \<lparr>errors := [],
           requests := requests (run orderRun (construct sampleEnv ''p'' ''1'')) @
             [\<lparr>url = ''http://c/report/error'', payload = ErrorData (Some ''abc'') ''p'' ''1'' ''1'' 1\<rparr>]\<rparr>,
        Returned [ErrorData (Some ''abc'') ''p'' ''1'' ''7'' 1,
                  ErrorData (Some ''abc'') ''p'' ''1'' ''b'' 1] True)"
proof -
  define s where "s = run flushRun (construct sampleEnv ''p'' ''1'')"
  define s0 where "s0 = construct sampleEnv ''p'' ''1''"
  define s2 where "s2 = run orderRun (construct sampleEnv ''p'' ''1'')"
  have f: "errors s = [(''d'', \<lparr>error = ''d'', count = 1\<rparr>)]"
    "pending s = [Exec ReportError [ErrorData (Some ''abc'') ''p'' ''1'' ''c'' 1] True]"
    "postThrows s = False" "clientId s = Some ''abc''" "name s = ''p''" "version s = ''1''"
    "env s ''WORLDVIOUS_URL'' = Some ''http://c''"
    unfolding s_def by (simp_all add: eval_defs)
  have f0: "errors s0 = []" unfolding s0_def by (simp add: eval_defs)
  have f2: "errors s2 = [(''b'', \<lparr>error = ''b'', count = 1\<rparr>), (''7'', \<lparr>error = ''7'', count = 1\<rparr>),
                         (''1'', \<lparr>error = ''1'', count = 1\<rparr>)]"
    "postThrows s2 = False" "clientId s2 = Some ''abc''" "name s2 = ''p''" "version s2 = ''1''"
    "env s2 ''WORLDVIOUS_URL'' = Some ''http://c''"
    unfolding s2_def by (simp_all add: eval_defs)
  have o2: "ownEntries (errors s2) =
              [(''1'', \<lparr>error = ''1'', count = 1\<rparr>), (''7'', \<lparr>error = ''7'', count = 1\<rparr>),
               (''b'', \<lparr>error = ''b'', count = 1\<rparr>)]"
    unfolding f2(1)
    by (simp add: ownEntries_def arrayIndex_def isDigitOf_def digitValue_def digitsValue_def Let_def)
  have r: "s = run flushRun (construct sampleEnv ''p'' ''1'')" by (simp add: s_def)
  have r0: "s0 = run [] (construct sampleEnv ''p'' ''1'')" by (simp add: s0_def)
  have r2: "s2 = run orderRun (construct sampleEnv ''p'' ''1'')" by (simp add: s2_def)
  note t = C2_error_flush[OF r] and t0 = C2_error_flush[OF r0] and t2 = C2_error_flush[OF r2]
  have 1: "reportError s =
          (s\<lparr>errors := [],
             requests := requests s @ [\<lparr>url = fullUrl s ''report/error'',
                                        payload = hd (errorPayloads s)\<rparr>]\<rparr>,
           if postThrows s then Returned [] False else Returned (tl (errorPayloads s)) True)"
    using t f(1) by simp
  have o: "ownEntries (errors s) = [(''d'', \<lparr>error = ''d'', count = 1\<rparr>)]"
    unfolding f(1)
    by (simp add: ownEntries_def arrayIndex_def isDigitOf_def digitValue_def digitsValue_def Let_def)
  have 2: "errorPayloads s = [ErrorData (Some ''abc'') ''p'' ''1'' ''d'' 1]"
    using t by (simp add: o f(4-6))
  have 3: "response 0 (Resolved None) s =
          s\<lparr>requests := requests s @ [\<lparr>url = fullUrl s ''report/error'',
                 payload = ErrorData (Some ''abc'') ''p'' ''1'' ''c'' 1\<rparr>],
            pending := (pending s)[0 := if postThrows s then Exec ReportError [] False
                                         else Exec ReportError [] True]\<rparr>"
    using t f(2) by simp
  have 4: "response 0 Rejected s = s\<lparr>pending := (pending s)[0 := Exec ReportError [] False]\<rparr>"
    using t f(2) by simp
  have 5: "reportError s0 = (s0, Returned [] False)" using t0 f0 by simp
  have 6: "errorPayloads s2 = [ErrorData (Some ''abc'') ''p'' ''1'' ''1'' 1,
             ErrorData (Some ''abc'') ''p'' ''1'' ''7'' 1, ErrorData (Some ''abc'') ''p'' ''1'' ''b'' 1]"
    using t2 by (simp add: o2 f2(3-5))
  have 7: "reportError s2 =
          (s2\<lparr>errors := [],
             requests := requests s2 @ [\<lparr>url = fullUrl s2 ''report/error'',
                                        payload = hd (errorPayloads s2)\<rparr>]\<rparr>,
           if postThrows s2 then Returned [] False else Returned (tl (errorPayloads s2)) True)"
    using t2 f2(1) by simp
  have u: "fullUrl s ''report/error'' = ''http://c/report/error''"
    "fullUrl s2 ''report/error'' = ''http://c/report/error''" by (simp_all add: fullUrl_def f f2)
  have "fst (reportError s) =
     s\<lparr>errors := [],
        requests := requests s @
           [\<lparr>url = ''http://c/report/error'', payload = ErrorData (Some ''abc'') ''p'' ''1'' ''d'' 1\<rparr>]\<rparr>
   \<and> requests (response 0 (Resolved None) s) =
       requests s @
           [\<lparr>url = ''http://c/report/error'', payload = ErrorData (Some ''abc'') ''p'' ''1'' ''c'' 1\<rparr>]
   \<and> errors (response 0 Rejected s) = [(''d'', \<lparr>error = ''d'', count = 1\<rparr>)]
   \<and> requests (response 0 Rejected s) = requests s
   \<and> reportError s0 = (s0, Returned [] False)
   \<and> map fst (errors s2) = [''b'', ''7'', ''1'']
   \<and> reportError s2 =
       (s2\<lparr>errors := [],
           requests := requests s2 @
             [\<lparr>url = ''http://c/report/error'', payload = ErrorData (Some ''abc'') ''p'' ''1'' ''1'' 1\<rparr>]\<rparr>,
        Returned [ErrorData (Some ''abc'') ''p'' ''1'' ''7'' 1,
                  ErrorData (Some ''abc'') ''p'' ''1'' ''b'' 1] True)"
    by (simp add: 1 2 3 4 5 6 7 u f(1) f2(1,2))
  then show ?thesis unfolding s_def s0_def s2_def .
qed

text \<open>
  The signature of an error value: the sentinel for \<^verbatim>\<open>null\<close> and \<^verbatim>\<open>undefined\<close>, the stack
  when the value has a non-empty one, its string form otherwise.
\<close>

lemma getErrorString_cases:
  "getErrorString Nullish = ''UNDEFINED ERROR''"
  "stack \<noteq> [] \<Longrightarrow> getErrorString (Thrown (Some stack) str) = stack"
  "getErrorString (Thrown (Some []) str) = str"
  "getErrorString (Thrown None str) = str"
  by (simp_all add: getErrorString_def truthy_def)

lemma map_of_bump:
  "map_of (map (\<lambda>(k', i). if k' = k then (k', f i) else (k', i)) errs) k'' =
     (if k'' = k then map_option f (map_of errs k) else map_of errs k'')"
  by (induction errs) auto

lemma map_of_recordError:
  "k \<notin> set objectPrototypeKeys \<Longrightarrow>
   map_of (recordError k errs) k' =
     (if k' = k
      then Some (case map_of errs k of None \<Rightarrow> \<lparr>error = k, count = 1\<rparr>
                 | Some i \<Rightarrow> i\<lparr>count := count i + 1\<rparr>)
      else map_of errs k')"
  by (cases "map_of errs k") (auto simp: recordError_def map_of_bump map_add_def split: option.splits)

lemma map_of_recordError_other:
  "k' \<noteq> k \<Longrightarrow> map_of (recordError k errs) k' = map_of errs k'"
  by (cases "map_of errs k") (auto simp: recordError_def map_of_bump map_add_def split: option.splits)

text \<open>
  For a signature that is not a property name of \<^verbatim>\<open>Object.prototype\<close> the pending map
  counts exactly: after recording the signatures \<open>ks\<close> one by one, starting from the empty
  map, the record of \<open>k\<close> holds the number of occurrences of \<open>k\<close> in \<open>ks\<close>.
\<close>

lemma recordError_counts_aux:
  assumes "k \<notin> set objectPrototypeKeys"
  shows "map_of (foldl (\<lambda>errs k'. recordError k' errs) errs ks) k =
      (case map_of errs k of
         None \<Rightarrow> if k \<in> set ks then Some \<lparr>error = k, count = count_list ks k\<rparr> else None
       | Some i \<Rightarrow> Some (i\<lparr>count := count i + count_list ks k\<rparr>))"
proof (induction ks arbitrary: errs)
  case Nil
  then show ?case by (simp split: option.splits)
next
  case (Cons a ks)
  show ?case
  proof (cases "a = k")
    case True
    then show ?thesis using assms
      by (simp add: Cons.IH map_of_recordError split: option.splits)
  next
    case False
    then show ?thesis
      by (simp add: Cons.IH map_of_recordError_other split: option.splits)
  qed
qed

lemma recordError_counts:
  "k \<notin> set objectPrototypeKeys \<Longrightarrow>
   map_of (foldl (\<lambda>errs k'. recordError k' errs) [] ks) k =
     (if k \<in> set ks then Some \<lparr>error = k, count = count_list ks k\<rparr> else None)"
  using recordError_counts_aux[of k "[]" ks] by simp

text \<open>
  A signature that names a property of \<^verbatim>\<open>Object.prototype\<close> is never recorded.
\<close>

lemma recordError_prototype_key:
  "k \<in> set objectPrototypeKeys \<Longrightarrow> errorsOk errs \<Longrightarrow> recordError k errs = errs"
proof -
  assume k: "k \<in> set objectPrototypeKeys" and ok: "errorsOk errs"
  have "k \<notin> fst ` set errs" using ok k by (auto simp: errorsOk_def)
  then have "map_of errs k = None" by (simp add: map_of_eq_None_iff)
  then show ?thesis using k by (simp add: recordError_def)
qed

text \<open>
  Claim C5 is right about the normalisation (\<open>getErrorString_cases\<close>) and about the
  counts of ordinary signatures (\<open>recordError_counts\<close>), and the code breaks it for a
  signature such as \<^verbatim>\<open>constructor\<close> (the string form of the thrown string
  \<^verbatim>\<open>"constructor"\<close>): \<^verbatim>\<open>this.errors["constructor"]\<close> is the inherited, truthy
  \<^verbatim>\<open>Object\<close>, so \<^verbatim>\<open>acceptError\<close> takes the increment branch and the pending map stays
  empty. The error triggers the immediate flush, which finds nothing to send; a second
  such error and the next scheduled flush fare the same. No payload ever carries the
  signature, while the claim asks for a payload with count 1 and then 1 again.
\<close>

theorem C5_prototype_signature_lost:
  "getErrorString (Thrown None ''constructor'') = ''constructor''
   \<and> errors (run (initRun @ [AcceptError (Thrown None ''constructor'')])
               (construct sampleEnv ''p'' ''1'')) = []
   \<and> started (run (initRun @ [AcceptError (Thrown None ''constructor'')])
               (construct sampleEnv ''p'' ''1'')) = [VersionCheck, ReportError]
   \<and> requests (run (initRun @ [AcceptError (Thrown None ''constructor''), Continue 0,
                               AcceptError (Thrown None ''constructor''), Continue 0,
                               Elapse 3000, TimerFire ReportError])
               (construct sampleEnv ''p'' ''1''))
      = [\<lparr>url = ''http://c/report/version'', payload = VersionData (Some ''abc'') ''p'' ''1''\<rparr>]
   \<and> started (run (initRun @ [AcceptError (Thrown None ''constructor''), Continue 0,
                               AcceptError (Thrown None ''constructor''), Continue 0,
                               Elapse 3000, TimerFire ReportError])
               (construct sampleEnv ''p'' ''1''))
      = [VersionCheck, ReportError, ReportError, ReportError]"
  by (simp add: eval_defs)


section \<open>Re-entrancy and the first-error latch\<close>

lemma handler_running:
  "jobRuntime s n = Some True \<Longrightarrow> handler n job s = runJobLater n s"
  by (simp add: handler_eq)

lemma runJobLater_arm:
  "\<not> closed s \<Longrightarrow> enabled (jobConfigs s n) \<Longrightarrow> jobs s n = Some job \<Longrightarrow>
   runJobLater n s = armTimer n job s"
  by (simp add: runJobLater_def)

lemma handler_starts:
  "jobRuntime s n = Some False \<Longrightarrow>
   started (handler n job s) = started s @ [n] \<and> timers (handler n job s) = timers s
   \<and> hookCalls (handler n job s) = hookCalls s
   \<and> isFirstErrorReported (handler n job s) = isFirstErrorReported s
   \<and> jobRuntime (handler n job s) = (jobRuntime s)(n := Some True)"
  by (simp add: handler_eq Let_def split: BodyResult.splits)

text \<open>
  Claim C6 as stated fails: the first \<^verbatim>\<open>acceptError\<close> after construction finds no job
  registered (\<^verbatim>\<open>_schedule()\<close> has not run), so \<^verbatim>\<open>_runJob\<close> returns at "Unknown job": no
  body is invoked and no post is made, while the latch is set all the same.
\<close>

theorem C6_counterexample:
  "started (acceptError (Thrown None ''boom'') (construct sampleEnv ''p'' ''1'')) = []
   \<and> requests (acceptError (Thrown None ''boom'') (construct sampleEnv ''p'' ''1'')) = []
   \<and> isFirstErrorReported (acceptError (Thrown None ''boom'') (construct sampleEnv ''p'' ''1''))"
  by (simp add: eval_defs)

text \<open>
  Claim C6, amended. While the error-report job is enabled and registered, the client
  is open and no error flush is running, an \<^verbatim>\<open>acceptError\<close> with the latch unset sets the
  latch and runs the error-report job at once: the body is invoked, a pending timer of
  the job is cancelled, and the pre-arm hook is not called. With the latch set,
  \<^verbatim>\<open>acceptError\<close> only updates the count of the signature. The hook is called exactly
  once each time a fresh timer is armed for the job (an open client, no timer pending),
  where it resets the latch; a request to arm while a timer is pending changes nothing.
\<close>

theorem C6_first_error_latch:
  "(\<not> isFirstErrorReported s \<and> \<not> closed s \<and> enabled (jobConfigs s ReportError)
      \<and> jobs s ReportError = Some job \<and> jobRuntime s ReportError = Some False \<longrightarrow>
        started (acceptError err s) = started s @ [ReportError]
      \<and> timers (acceptError err s) ReportError = None
      \<and> hookCalls (acceptError err s) = hookCalls s
      \<and> isFirstErrorReported (acceptError err s))
   \<and> (isFirstErrorReported s \<longrightarrow>
        acceptError err s = s\<lparr>errors := recordError (getErrorString err) (errors s)\<rparr>)
   \<and> (\<not> closed s \<and> enabled (jobConfigs s ReportError) \<and> jobs s ReportError = Some job
      \<and> preScheduleCb job = Some ResetFirstError \<longrightarrow>
        (timers s ReportError = None \<longrightarrow>
           runJob ReportError False s =
             s\<lparr>isFirstErrorReported := False,
               timers := (timers s)(ReportError :=
                            Some \<lparr>armedAt = now s, delayMs = multiply (seconds job) (Finite 1000)\<rparr>),
               hookCalls := hookCalls s @ [ReportError]\<rparr>)
      \<and> (timers s ReportError \<noteq> None \<longrightarrow> runJob ReportError False s = s))"
proof -
  have a: "started (acceptError err s) = started s @ [ReportError]
      \<and> timers (acceptError err s) ReportError = None
      \<and> hookCalls (acceptError err s) = hookCalls s
      \<and> isFirstErrorReported (acceptError err s)"
    if h: "\<not> isFirstErrorReported s" "\<not> closed s" "enabled (jobConfigs s ReportError)"
      "jobs s ReportError = Some job" "jobRuntime s ReportError = Some False"
  proof -
    let ?s1 = "s\<lparr>errors := recordError (getErrorString err) (errors s), isFirstErrorReported := True\<rparr>"
    have r: "jobRuntime (stopScheduledJob ReportError ?s1) ReportError = Some False"
      using h by (simp add: stopScheduledJob_def split: option.splits)
    have "acceptError err s = handler ReportError job (stopScheduledJob ReportError ?s1)"
      using h by (simp add: acceptError_def Let_def runJob_def)
    then show ?thesis using handler_starts[OF r, of job]
      by (simp add: stopScheduledJob_def split: option.splits)
  qed
  have b: "acceptError err s = s\<lparr>errors := recordError (getErrorString err) (errors s)\<rparr>"
    if "isFirstErrorReported s"
    using that by (simp add: acceptError_def Let_def)
  have c: "runJob ReportError False s =
             s\<lparr>isFirstErrorReported := False,
               timers := (timers s)(ReportError :=
                            Some \<lparr>armedAt = now s, delayMs = multiply (seconds job) (Finite 1000)\<rparr>),
               hookCalls := hookCalls s @ [ReportError]\<rparr>"
    if "\<not> closed s" "enabled (jobConfigs s ReportError)" "jobs s ReportError = Some job"
       "preScheduleCb job = Some ResetFirstError" "timers s ReportError = None"
    using that by (simp add: runJob_def armTimer_eq)
  have d: "runJob ReportError False s = s"
    if "\<not> closed s" "enabled (jobConfigs s ReportError)" "jobs s ReportError = Some job"
       "timers s ReportError \<noteq> None"
    using that by (auto simp: runJob_def armTimer_def)
  show ?thesis using a b c d by blast
qed


theorem C6_witness:
  "started (acceptError (Thrown None ''boom'') (run initRun (construct sampleEnv ''p'' ''1'')))
     = [VersionCheck, ReportError]
   \<and> timers (acceptError (Thrown None ''boom'') (run initRun (construct sampleEnv ''p'' ''1'')))
        ReportError = None
   \<and> hookCalls (acceptError (Thrown None ''boom'') (run initRun (construct sampleEnv ''p'' ''1'')))
        = [ReportError]
   \<and> hookCalls (runJob ReportError False
        (acceptError (Thrown None ''boom'') (run initRun (construct sampleEnv ''p'' ''1''))))
        = [ReportError, ReportError]
   \<and> errors (acceptError (Thrown None ''boom'')
        (acceptError (Thrown None ''boom'') (run initRun (construct sampleEnv ''p'' ''1''))))
        = [(''boom'', \<lparr>error = ''boom'', count = 1\<rparr>)]
   \<and> started (acceptError (Thrown None ''boom'')
        (acceptError (Thrown None ''boom'') (run initRun (construct sampleEnv ''p'' ''1''))))
        = [VersionCheck, ReportError]"
proof -
  define s where "s = run initRun (construct sampleEnv ''p'' ''1'')"
  define s1 where "s1 = acceptError (Thrown None ''boom'') s"
  have f: "\<not> isFirstErrorReported s" "\<not> closed s" "enabled (jobConfigs s ReportError)"
    "jobs s ReportError = Some \<lparr>jobName = ReportError, seconds = Finite 3, cb = ReportError,
                                 preScheduleCb = Some ResetFirstError\<rparr>"
    "jobRuntime s ReportError = Some False" "started s = [VersionCheck]" "hookCalls s = [ReportError]"
    "timers s ReportError \<noteq> None"
    unfolding s_def by (simp_all add: eval_defs)
  have g: "isFirstErrorReported s1" "errors s1 = []" "started s1 = [VersionCheck, ReportError]"
    unfolding s1_def s_def by (simp_all add: eval_defs)
  note t = C6_first_error_latch[of s "\<lparr>jobName = ReportError, seconds = Finite 3, cb = ReportError,
                                 preScheduleCb = Some ResetFirstError\<rparr>" "Thrown None ''boom''"]
  note t1 = C6_first_error_latch[of s1 "\<lparr>jobName = ReportError, seconds = Finite 3, cb = ReportError,
                                 preScheduleCb = Some ResetFirstError\<rparr>" "Thrown None ''boom''"]
  have 1: "started s1 = started s @ [ReportError] \<and> timers s1 ReportError = None
      \<and> hookCalls s1 = hookCalls s \<and> isFirstErrorReported s1"
    unfolding s1_def using t f(1-5) by blast
  have 2: "acceptError (Thrown None ''boom'') s1
        = s1\<lparr>errors := recordError (getErrorString (Thrown None ''boom'')) (errors s1)\<rparr>"
    using t1 g(1) by blast
  have g2: "\<not> closed s1" "enabled (jobConfigs s1 ReportError)"
    "jobs s1 ReportError = Some \<lparr>jobName = ReportError, seconds = Finite 3, cb = ReportError,
                                 preScheduleCb = Some ResetFirstError\<rparr>"
    unfolding s1_def s_def by (simp_all add: eval_defs)
  have 3: "runJob ReportError False s1 =
             s1\<lparr>isFirstErrorReported := False,
               timers := (timers s1)(ReportError :=
                            Some \<lparr>armedAt = now s1, delayMs = multiply (seconds \<lparr>jobName = ReportError, seconds = Finite 3, cb = ReportError,
                                 preScheduleCb = Some ResetFirstError\<rparr>) (Finite 1000)\<rparr>),
               hookCalls := hookCalls s1 @ [ReportError]\<rparr>"
    using t1 g2 1 by simp
  have "started s1 = [VersionCheck, ReportError] \<and> timers s1 ReportError = None
     \<and> hookCalls s1 = [ReportError]
     \<and> hookCalls (runJob ReportError False s1) = [ReportError, ReportError]
     \<and> errors (acceptError (Thrown None ''boom'') s1) = [(''boom'', \<lparr>error = ''boom'', count = 1\<rparr>)]
     \<and> started (acceptError (Thrown None ''boom'') s1) = [VersionCheck, ReportError]"
    using 1 by (simp add: 2 3 f(6,7) g(2) recordError_def getErrorString_def truthy_def objectPrototypeKeys_def)
  then show ?thesis unfolding s1_def s_def .
qed

lemma initCalls_handler [simp]: "initCalls (handler n job s) = initCalls s"
  by (simp add: handler_eq Let_def split: option.splits BodyResult.splits)

lemma initCalls_runJob [simp]: "initCalls (runJob n x s) = initCalls s"
  by (cases x) (simp_all add: runJob_False, simp add: runJob_def split: option.splits)

lemma initCalls_step: "initCalls (step ev s) = initCalls s + (if ev = Init then 1 else 0)"
proof (cases ev)
  case (Response i out)
  then show ?thesis
    by (auto simp: step_def response_def setTask_def dropTask_def activate_eq request_def
        split: Task.splits ReportActions.splits Outcome.splits option.splits list.splits)
next
  case (Continue i)
  then show ?thesis
    by (auto simp: step_def continue_def setTask_def dropTask_def complete_def schedule_sched
        split: Task.splits list.splits)
qed (simp_all add: step_def init_def close_def acceptError_def Let_def acceptCounters_def acceptMetrics_def
       reportFeedback_def request_def onNotificationsChanged_def trigger_def timerFire_def
       split: option.splits)

lemma initCalls_run: "initCalls (run evs s) = initCalls s + count_list evs Init"
  by (induction evs arbitrary: s) (simp_all add: initCalls_step)

lemma armTimer_frame [simp]:
  "started (armTimer n job s) = started s" "requests (armTimer n job s) = requests s"
  by (simp_all add: armTimer_eq)

text \<open>
  Claim C1. In the life of a client as the specification fixes it (constructed, then
  \<^verbatim>\<open>init()\<close> called at most once), every job has at most one execution of its body in
  flight at any time. If the timer of a job fires, or an immediate run of it is requested,
  while its \<^verbatim>\<open>isRunning\<close> flag is set, the body is not invoked for that trigger, no post
  is made and nothing is queued; the trigger arms a timer for the job's interval instead.
  After \<^verbatim>\<open>close()\<close>, when by the shutdown rule nothing is armed any more, no timer is left
  to fire and a request for an immediate run changes nothing.
\<close>

theorem C1_no_overlap:
  assumes "count_list evs Init \<le> 1" and "s = run evs (construct e nm ver)"
  shows "inFlight n s \<le> 1
     \<and> (jobRuntime s n = Some True \<longrightarrow>
          (\<exists>job. jobs s n = Some job
            \<and> (timers s n \<noteq> None \<longrightarrow>
                 started (timerFire n s) = started s \<and> requests (timerFire n s) = requests s
                 \<and> pending (timerFire n s) = pending s
                 \<and> timers (timerFire n s) n = Some \<lparr>armedAt = now s, delayMs = multiply (seconds job) (Finite 1000)\<rparr>)
            \<and> (\<not> closed s \<longrightarrow>
                 started (runJob n True s) = started s \<and> requests (runJob n True s) = requests s
                 \<and> pending (runJob n True s) = pending s
                 \<and> timers (runJob n True s) n = Some \<lparr>armedAt = now s, delayMs = multiply (seconds job) (Finite 1000)\<rparr>)
            \<and> (closed s \<longrightarrow> runJob n True s = s)))"
proof -
  have wf: "wfJob s n" unfolding assms(2) by (rule wfD[OF wf_run[OF wellFormed_construct]])
  have si: "singleInit s" unfolding assms(2) by (rule si_run[OF si_construct])
  have "initCalls s = count_list evs Init"
    unfolding assms(2) by (simp add: initCalls_run construct_def Let_def)
  then have "oneJob s n" using si assms(1) by (simp add: singleInit_def)
  then have one: "inFlight n s \<le> 1" by (simp add: oneJob_def split: if_splits)
  have two: "\<exists>job. jobs s n = Some job
            \<and> (timers s n \<noteq> None \<longrightarrow>
                 started (timerFire n s) = started s \<and> requests (timerFire n s) = requests s
                 \<and> pending (timerFire n s) = pending s
                 \<and> timers (timerFire n s) n = Some \<lparr>armedAt = now s, delayMs = multiply (seconds job) (Finite 1000)\<rparr>)
            \<and> (\<not> closed s \<longrightarrow>
                 started (runJob n True s) = started s \<and> requests (runJob n True s) = requests s
                 \<and> pending (runJob n True s) = pending s
                 \<and> timers (runJob n True s) n = Some \<lparr>armedAt = now s, delayMs = multiply (seconds job) (Finite 1000)\<rparr>)
            \<and> (closed s \<longrightarrow> runJob n True s = s)"
    if run: "jobRuntime s n = Some True"
  proof -
    from wf run obtain job where job: "jobs s n = Some job" and en: "enabled (jobConfigs s n)"
      by (auto simp: wfJob_def)
    have a: "started (timerFire n s) = started s \<and> requests (timerFire n s) = requests s
                 \<and> pending (timerFire n s) = pending s
                 \<and> timers (timerFire n s) n = Some \<lparr>armedAt = now s, delayMs = multiply (seconds job) (Finite 1000)\<rparr>"
      if t: "timers s n \<noteq> None"
    proof -
      let ?s1 = "s\<lparr>timers := (timers s)(n := None)\<rparr>"
      have nc: "\<not> closed s" using wf t by (auto simp: wfJob_def)
      have "timerFire n s = handler n job ?s1" using t job by (auto simp: timerFire_def)
      also have "\<dots> = runJobLater n ?s1" using run by (simp add: handler_running)
      also have "\<dots> = armTimer n job ?s1" using nc en job by (simp add: runJobLater_arm)
      finally show ?thesis by (simp add: armTimer_eq)
    qed
    have b: "started (runJob n True s) = started s \<and> requests (runJob n True s) = requests s
                 \<and> pending (runJob n True s) = pending s
                 \<and> timers (runJob n True s) n = Some \<lparr>armedAt = now s, delayMs = multiply (seconds job) (Finite 1000)\<rparr>"
      if nc: "\<not> closed s"
    proof -
      let ?s1 = "stopScheduledJob n s"
      have s1: "jobRuntime ?s1 n = Some True" "\<not> closed ?s1" "enabled (jobConfigs ?s1 n)"
        "jobs ?s1 n = Some job" "timers ?s1 n = None" "started ?s1 = started s"
        "requests ?s1 = requests s" "pending ?s1 = pending s" "now ?s1 = now s"
        using run nc en job by (simp_all add: stopScheduledJob_def split: option.splits)
      have "runJob n True s = handler n job ?s1" using nc en job by (simp add: runJob_def)
      also have "\<dots> = runJobLater n ?s1" using s1(1) by (simp add: handler_running)
      also have "\<dots> = armTimer n job ?s1" using s1(2,3,4) by (simp add: runJobLater_arm)
      finally show ?thesis using s1 by (simp add: armTimer_eq)
    qed
    have c: "runJob n True s = s" if "closed s" using that by (simp add: runJob_def)
    show ?thesis using job a b c by blast
  qed
  show ?thesis using one two by blast
qed

theorem C1_witness:
  "inFlight ReportError (run flushRun (construct sampleEnv ''p'' ''1'')) \<le> 1
   \<and> started (timerFire ReportError (run flushRun (construct sampleEnv ''p'' ''1'')))
       = [VersionCheck, ReportError, ReportError]
   \<and> timers (timerFire ReportError (run flushRun (construct sampleEnv ''p'' ''1''))) ReportError
       = Some \<lparr>armedAt = 3000, delayMs = Finite 3000\<rparr>
   \<and> started (runJob ReportError True (run flushRun (construct sampleEnv ''p'' ''1'')))
       = [VersionCheck, ReportError, ReportError]
   \<and> timers (runJob ReportError True (run flushRun (construct sampleEnv ''p'' ''1''))) ReportError
       = Some \<lparr>armedAt = 3000, delayMs = Finite 3000\<rparr>"
proof -
  define s where "s = run flushRun (construct sampleEnv ''p'' ''1'')"
  have c: "count_list flushRun Init \<le> 1" by (simp add: flushRun_def initRun_def)
  have r: "s = run flushRun (construct sampleEnv ''p'' ''1'')" by (simp add: s_def)
  have f: "jobRuntime s ReportError = Some True" "timers s ReportError \<noteq> None" "\<not> closed s"
    "jobs s ReportError = Some \<lparr>jobName = ReportError, seconds = Finite 3, cb = ReportError,
                                 preScheduleCb = Some ResetFirstError\<rparr>"
    "now s = 3000" "started s = [VersionCheck, ReportError, ReportError]"
    unfolding s_def by (simp_all add: eval_defs)
  have "inFlight ReportError s \<le> 1
   \<and> started (timerFire ReportError s) = [VersionCheck, ReportError, ReportError]
   \<and> timers (timerFire ReportError s) ReportError = Some \<lparr>armedAt = 3000, delayMs = Finite 3000\<rparr>
   \<and> started (runJob ReportError True s) = [VersionCheck, ReportError, ReportError]
   \<and> timers (runJob ReportError True s) ReportError = Some \<lparr>armedAt = 3000, delayMs = Finite 3000\<rparr>"
    using C1_no_overlap[OF c r, of ReportError] f by (simp add: multiply_small)
  then show ?thesis unfolding s_def .
qed

text \<open>
  The hypothesis on \<^verbatim>\<open>init()\<close> is needed: a second \<^verbatim>\<open>init()\<close> registers the jobs again,
  which clears \<^verbatim>\<open>isRunning\<close> while a body is in flight, and the version check is started
  a second time.
\<close>

lemma second_init_starts_again:
  "inFlight VersionCheck (run doubleInitRun (construct sampleEnv ''p'' ''1'')) = 2"
  by (simp add: eval_defs inFlight_def)


section \<open>A client without identity or base address\<close>

lemma runJob_disabled: "\<not> enabled (jobConfigs s n) \<Longrightarrow> runJob n x s = s"
  by (simp add: runJob_def)

lemma schedule_disabled: "\<forall>n. \<not> enabled (jobConfigs s n) \<Longrightarrow> schedule s = s"
  by (simp add: schedule_def register_def)

lemma no_exec: "\<forall>n. inFlight n s = 0 \<Longrightarrow> i < length (pending s) \<Longrightarrow> pending s ! i \<noteq> Exec n rest aw"
  using inFlight_pos_nth[of i s n] by auto

lemma disabled_step: "disabledClient s \<Longrightarrow> disabledClient (step ev s)"
proof -
  assume d: "disabledClient s"
  then have dis: "\<forall>n. \<not> enabled (jobConfigs s n)" and z: "\<forall>n. inFlight n s = 0"
    and t: "\<forall>n. timers s n = None"
    by (simp_all add: disabledClient_def)
  show "disabledClient (step ev s)"
  proof (cases ev)
    case (Response i out)
    show ?thesis
    proof (cases "i < length (pending s)")
      case False then show ?thesis using Response d by (simp add: step_def response_def)
    next
      case True
      show ?thesis
      proof (cases "pending s ! i")
        case (Exec n rest aw)
        then show ?thesis using no_exec[OF z True, of n rest aw] by simp
      next
        case Feedback
        have "inFlight n (dropTask i s) = 0" for n using inFlight_dropTask[of i s n] True z by simp
        then show ?thesis using Response True Feedback d
          by (simp add: step_def response_def disabledClient_def feedbackOnly_def fullUrl_def)
             (simp add: dropTask_def)
      qed (use Response True d in \<open>simp_all add: step_def response_def\<close>)
    qed
  next
    case (Continue i)
    show ?thesis
    proof (cases "i < length (pending s)")
      case False then show ?thesis using Continue d by (simp add: step_def continue_def)
    next
      case True
      have st: "disabledClient (setTask i t s)" if "pending s ! i = InitSchedule \<or> (\<exists>ns. pending s ! i = InitJobs ns)"
        "\<forall>n. \<not> isExec n t" for t
      proof -
        have "inFlight n (setTask i t s) = 0" for n
          using inFlight_setTask[of i s n t] True z that by auto
        then show ?thesis using d
          by (simp add: disabledClient_def feedbackOnly_def fullUrl_def) (simp add: setTask_def)
      qed
      have dr: "disabledClient (dropTask i s)"
      proof -
        have "inFlight n (dropTask i s) = 0" for n using inFlight_dropTask[of i s n] True z by simp
        then show ?thesis using d
          by (simp add: disabledClient_def feedbackOnly_def fullUrl_def) (simp add: dropTask_def)
      qed
      show ?thesis
      proof (cases "pending s ! i")
        case InitSchedule
        then show ?thesis using Continue True st[of "InitJobs jobNames"] dis
          by (simp add: step_def continue_def schedule_disabled)
      next
        case (InitJobs ns)
        show ?thesis
        proof (cases ns)
          case Nil then show ?thesis using Continue True InitJobs dr by (simp add: step_def continue_def)
        next
          case (Cons m rest)
          have "\<not> enabled (jobConfigs (setTask i (InitJobs rest) s) m)" using dis by (simp add: setTask_def)
          then show ?thesis using Continue True InitJobs Cons st[of "InitJobs rest"]
            by (simp add: step_def continue_def runJob_disabled)
        qed
      next
        case (Exec n rest aw)
        then show ?thesis using no_exec[OF z True, of n rest aw] by simp
      next
        case (Notify l)
        have "disabledClient ((dropTask i s)\<lparr>delivered := delivered s @ [(l, versionCheckResult s)]\<rparr>)"
          using dr by (simp add: disabledClient_def feedbackOnly_def fullUrl_def inFlight_def)
        then show ?thesis using Continue True Notify by (simp add: step_def continue_def)
      next
        case Feedback
        then show ?thesis using Continue True d by (simp add: step_def continue_def)
      qed
    qed
  next
    case (AcceptError e)
    have "\<not> enabled (jobConfigs (s\<lparr>errors := recordError (getErrorString e) (errors s), isFirstErrorReported := True\<rparr>) ReportError)"
      using dis by simp
    then show ?thesis using AcceptError d
      by (simp add: step_def acceptError_def Let_def runJob_disabled)
         (simp add: disabledClient_def feedbackOnly_def fullUrl_def inFlight_def)
  next
    case (TimerFire n)
    then show ?thesis using d t by (simp add: step_def timerFire_def)
  next
    case (ReportFeedback f a)
    then show ?thesis using d
      by (simp add: step_def reportFeedback_def Let_def request_def disabledClient_def feedbackOnly_def
          fullUrl_def inFlight_def)
  qed (use d in \<open>simp_all add: step_def init_def close_def acceptCounters_def acceptMetrics_def
         onNotificationsChanged_def trigger_def disabledClient_def feedbackOnly_def fullUrl_def inFlight_def\<close>)
qed

lemma disabled_run: "disabledClient s \<Longrightarrow> disabledClient (run evs s)"
  by (induction evs arbitrary: s) (simp_all add: disabled_step)

lemma disabled_construct:
  "\<not> truthy (e ''WORLDVIOUS_ID'') \<or> \<not> truthy (e ''WORLDVIOUS_URL'') \<Longrightarrow> disabledClient (construct e nm ver)"
  by (auto simp: disabledClient_def construct_def Let_def feedbackOnly_def inFlight_def)

text \<open>
  What does hold of a client constructed without identity or without base address: every
  job is disabled for good, no job body is ever invoked, no timer is ever armed, and the
  only posts it can make are those of \<^verbatim>\<open>reportFeedback\<close>.
\<close>

lemma disabled_client_runs_no_job:
  assumes "\<not> truthy (e ''WORLDVIOUS_ID'') \<or> \<not> truthy (e ''WORLDVIOUS_URL'')"
  shows "started (run evs (construct e nm ver)) = []
     \<and> (\<forall>n. \<not> enabled (jobConfigs (run evs (construct e nm ver)) n)
            \<and> timers (run evs (construct e nm ver)) n = None)
     \<and> feedbackOnly (run evs (construct e nm ver))"
  using disabled_run[OF disabled_construct[OF assms], of evs nm ver] by (simp add: disabledClient_def)

text \<open>
  Claim C4 is right about the jobs (the lemma above) and the code breaks it in
  \<^verbatim>\<open>reportFeedback\<close>, which tests the identity but not the base address: on a client
  constructed with \<^verbatim>\<open>WORLDVIOUS_ID\<close> and without \<^verbatim>\<open>WORLDVIOUS_URL\<close> (so disabled), a feedback
  report is posted, to the address \<^verbatim>\<open>undefined/report/feedback\<close>.
\<close>

theorem C4_feedback_without_base_address:
  "\<not> clientEnabled (construct idOnlyEnv ''p'' ''1'')
   \<and> requests (run (initRun @ [ReportFeedback ''f1'' (JStr ''yes'')]) (construct idOnlyEnv ''p'' ''1''))
      = [\<lparr>url = ''undefined/report/feedback'', payload = FeedbackData ''abc'' ''f1'' (JStr ''yes'')\<rparr>]"
  by (simp add: eval_defs)


section \<open>Completion of a job body\<close>

lemma complete_rearms:
  assumes "\<not> closed s" "enabled (jobConfigs s n)" "jobs s n = Some job"
    "i < length (pending s)" "pending s ! i = Exec n rest False" "timers s n = None"
  shows "jobRuntime (continue i s) n = Some False
     \<and> timers (continue i s) n = Some \<lparr>armedAt = now s, delayMs = multiply (seconds job) (Finite 1000)\<rparr>
     \<and> started (continue i s) = started s"
  using assms by (simp add: continue_def complete_def runJob_def dropTask_def armTimer_eq)

lemma handler_throw:
  assumes "jobRuntime s n = Some False" "postThrows s" "cb job \<noteq> ReportError"
  shows "handler n job s = (s\<lparr>jobRuntime := (jobRuntime s)(n := Some True), started := started s @ [n],
            requests := requests (fst (jobBody (cb job) s))\<rparr>)"
  using assms
  by (cases "cb job") (simp_all add: handler_def jobBody_def checkVersion_def reportCounters_def
      reportMetrics_def request_def fullUrl_def)

lemma stalled_cong:
  "stalled n s \<Longrightarrow> pending s' = pending s \<Longrightarrow> jobRuntime s' = jobRuntime s \<Longrightarrow> stalled n s'"
  by (simp add: stalled_def inFlight_def inits_def)

lemma started_armTimer: "started (armTimer m job s) = started s" by simp

lemma started_runJobLater [simp]: "started (runJobLater m s) = started s"
  by (simp add: runJobLater_def split: option.splits)

lemma started_stop [simp]: "started (stopScheduledJob m s) = started s"
  by (simp add: stopScheduledJob_def split: option.splits)

lemma stalled_handler:
  assumes st: "stalled n s"
  shows "stalled n (handler m job s) \<and> count_list (started (handler m job s)) n = count_list (started s) n"
proof (cases "jobRuntime s m")
  case None
  then show ?thesis using st by (simp add: handler_eq)
next
  case (Some r)
  show ?thesis
  proof (cases r)
    case True
    then have "handler m job s = runJobLater m s" using Some by (simp add: handler_eq)
    then show ?thesis using stalled_cong[OF st, of "runJobLater m s"] by simp
  next
    case False
    then have r: "jobRuntime s m = Some False" using Some by simp
    then have mn: "m \<noteq> n" using st by (auto simp: stalled_def)
    from handler_start[OF r, of job] obtain s' where
      s': "handler m job s = s'" "jobRuntime s' = (jobRuntime s)(m := Some True)"
        "pending s' = pending s \<or> (\<exists>rest aw. pending s' = pending s @ [Exec m rest aw])"
      by blast
    have "stalled n s'" using st s'(2,3) mn by (auto simp: stalled_def inFlight_def inits_def)
    moreover have "started s' = started s @ [m]" using handler_starts[OF r, of job] s'(1) by simp
    ultimately show ?thesis using s'(1) mn by simp
  qed
qed

lemma stalled_runJob:
  assumes st: "stalled n s"
  shows "stalled n (runJob m x s) \<and> count_list (started (runJob m x s)) n = count_list (started s) n"
proof (cases x)
  case False
  then show ?thesis using stalled_cong[OF st, of "runJobLater m s"] by (simp add: runJob_False)
next
  case True
  have "stalled n (stopScheduledJob m s)" using stalled_cong[OF st, of "stopScheduledJob m s"] by simp
  from stalled_handler[OF this] show ?thesis using True st
    by (simp add: runJob_def split: option.splits)
qed

lemma stalled_step:
  assumes st: "stalled n s" and ni: "ev \<noteq> Init"
  shows "stalled n (step ev s) \<and> count_list (started (step ev s)) n = count_list (started s) n"
proof (cases ev)
  case Init then show ?thesis using ni by simp
next
  case Close
  then show ?thesis using stalled_cong[OF st, of "close s"] by (simp add: step_def close_def)
next
  case (AcceptError e)
  let ?a = "s\<lparr>errors := recordError (getErrorString e) (errors s), isFirstErrorReported := True\<rparr>"
  let ?b = "s\<lparr>errors := recordError (getErrorString e) (errors s)\<rparr>"
  have "stalled n ?a" "stalled n ?b" by (rule stalled_cong[OF st]; simp)+
  then show ?thesis using AcceptError stalled_runJob[of n ?a ReportError True]
    by (simp add: step_def acceptError_def Let_def)
next
  case (AcceptCounters v)
  then show ?thesis using stalled_cong[OF st, of "acceptCounters v s"] by (simp add: step_def acceptCounters_def)
next
  case (AcceptMetrics v)
  then show ?thesis using stalled_cong[OF st, of "acceptMetrics v s"] by (simp add: step_def acceptMetrics_def)
next
  case (ReportFeedback f a)
  then show ?thesis using st
    by (simp add: step_def reportFeedback_def Let_def request_def stalled_def inFlight_def inits_def)
next
  case (OnNotificationsChanged l)
  then show ?thesis using st
    by (simp add: step_def onNotificationsChanged_def trigger_def stalled_def inFlight_def inits_def)
next
  case (TimerFire m)
  have "stalled n (s\<lparr>timers := (timers s)(m := None)\<rparr>)" by (rule stalled_cong[OF st]; simp)
  from stalled_handler[OF this] show ?thesis using TimerFire st
    by (simp add: step_def timerFire_def stalled_def inFlight_def inits_def split: option.splits)
next
  case (Response i out)
  show ?thesis
  proof (cases "i < length (pending s)")
    case False then show ?thesis using Response st by (simp add: step_def response_def)
  next
    case True
    show ?thesis
    proof (cases "pending s ! i")
      case (Exec m rest aw)
      have a: "stalled n (setTask i (Exec m r a) s')"
        if "pending s' = pending s @ ns" "jobRuntime s' = jobRuntime s" "list_all (\<lambda>t. \<exists>l. t = Notify l) ns" for s' r a ns
      proof -
        have l: "i < length (pending s')" "pending s' ! i = Exec m rest aw"
          using that(1) True Exec by (simp_all add: nth_append)
        have f: "filter (isExec n) ns = []" "filter (\<lambda>t. t = InitSchedule) ns = []"
          using that(3) by (induction ns) auto
        have "inFlight n (setTask i (Exec m r a) s') = inFlight n s'"
          using inFlight_setTask[of i s' n "Exec m r a"] l by simp
        moreover have "inits (setTask i (Exec m r a) s') = inits s'"
          using inits_setTask[of i s' "Exec m r a"] l by simp
        moreover have "inFlight n s' = inFlight n s" "inits s' = inits s"
          using that(1) f by (simp_all add: inFlight_def inits_def)
        ultimately show ?thesis using st that(2) by (simp add: stalled_def setTask_def)
      qed
      have n0: "list_all (\<lambda>t. \<exists>l. t = Notify l) (map Notify ls)" for ls by (induction ls) auto
      have a0: "stalled n (setTask i (Exec m r a) s)" for r a using a[of s "[]"] by simp
      have a1: "stalled n (setTask i (Exec m r a) (activateNewVersionInfo ns s))" for r a ns
        using a[of "activateNewVersionInfo ns s" "map Notify (listeners s)"] n0 by (simp add: activate_eq)
      have a2: "stalled n (setTask i (Exec m r a) (request u p s))" for r a u p
        using a[of "request u p s" "[]"] by (simp add: request_def)
      have st0: "started (setTask i t s') = started s'" for t s' by (simp add: setTask_def)
      show ?thesis using Response True Exec a0 a1 a2 st
        by (auto simp: step_def response_def st0 activate_eq request_def
            split: ReportActions.splits Outcome.splits option.splits list.splits)
    next
      case Feedback
      have "inFlight n (dropTask i s) = inFlight n s" using inFlight_dropTask[of i s n] True Feedback by simp
      moreover have "inits (dropTask i s) = inits s" using inits_dropTask[of i s] True Feedback by simp
      ultimately have "stalled n (dropTask i s)" using st by (simp add: stalled_def dropTask_def)
      then show ?thesis using Response True Feedback by (simp add: step_def response_def dropTask_def)
    qed (use Response True st in \<open>simp_all add: step_def response_def\<close>)
  qed
next
  case (Continue i)
  show ?thesis
  proof (cases "i < length (pending s)")
    case False then show ?thesis using Continue st by (simp add: step_def continue_def)
  next
    case True
    have dr: "stalled n (dropTask i s)"
    proof -
      have "inFlight n (dropTask i s) = 0" using inFlight_dropTask[of i s n] True st by (simp add: stalled_def)
      moreover have "inits (dropTask i s) = 0" using inits_dropTask[of i s] True st by (simp add: stalled_def)
      ultimately show ?thesis using st by (simp add: stalled_def dropTask_def)
    qed
    have sd: "started (dropTask i s) = started s" by (simp add: dropTask_def)
    show ?thesis
    proof (cases "pending s ! i")
      case InitSchedule
      have "0 < inits s" using True InitSchedule nth_mem[of i "pending s"]
        by (auto simp: inits_def filter_empty_conv)
      then show ?thesis using st by (simp add: stalled_def)
    next
      case (InitJobs ns)
      show ?thesis
      proof (cases ns)
        case Nil then show ?thesis using Continue True InitJobs dr sd by (simp add: step_def continue_def)
      next
        case (Cons m rest)
        have "inFlight n (setTask i (InitJobs rest) s) = inFlight n s"
          using inFlight_setTask[of i s n "InitJobs rest"] True InitJobs by simp
        moreover have "inits (setTask i (InitJobs rest) s) = inits s"
          using inits_setTask[of i s "InitJobs rest"] True InitJobs by simp
        ultimately have "stalled n (setTask i (InitJobs rest) s)" using st by (simp add: stalled_def setTask_def)
        from stalled_runJob[OF this] show ?thesis using Continue True InitJobs Cons
          by (simp add: step_def continue_def setTask_def)
      qed
    next
      case (Exec m rest aw)
      have "0 < inFlight m s" using True Exec by (simp add: inFlight_pos_nth)
      then have mn: "m \<noteq> n" using st by (auto simp: stalled_def)
      have "stalled n ((dropTask i s)\<lparr>jobRuntime := (jobRuntime (dropTask i s))(m := Some False)\<rparr>)"
        using dr mn by (simp add: stalled_def inFlight_def inits_def)
      from stalled_runJob[OF this] show ?thesis using Continue True Exec st sd
        by (simp add: step_def continue_def complete_def)
    next
      case (Notify l)
      have "stalled n ((dropTask i s)\<lparr>delivered := delivered s @ [(l, versionCheckResult s)]\<rparr>)"
        by (rule stalled_cong[OF dr]; simp)
      then show ?thesis using Continue True Notify sd by (simp add: step_def continue_def)
    next
      case Feedback
      then show ?thesis using Continue True st by (simp add: step_def continue_def)
    qed
  qed
next
  case (Elapse d)
  then show ?thesis using stalled_cong[OF st, of "s\<lparr>now := now s + d\<rparr>"] by (simp add: step_def)
next
  case (Transport b)
  then show ?thesis using stalled_cong[OF st, of "s\<lparr>postThrows := b\<rparr>"] by (simp add: step_def)
qed

lemma stalled_run:
  "stalled n s \<Longrightarrow> Init \<notin> set evs \<Longrightarrow>
   stalled n (run evs s) \<and> count_list (started (run evs s)) n = count_list (started s) n"
proof (induction evs arbitrary: s)
  case Nil then show ?case by simp
next
  case (Cons ev evs)
  then have "stalled n (step ev s) \<and> count_list (started (step ev s)) n = count_list (started s) n"
    using stalled_step[of n s ev] by auto
  then show ?case using Cons.IH[of "step ev s"] Cons.prems(2) by auto
qed

text \<open>
  A slip beside the claim: when the invocation of the body raises synchronously (the HTTP
  client raising instead of returning a promise), the \<^verbatim>\<open>catch\<close> branch of the handler logs
  and returns while \<^verbatim>\<open>isRunning\<close> stays set and nothing is re-armed. The job is then stuck:
  as long as \<^verbatim>\<open>init()\<close> is not called again, its body is never invoked again.
\<close>

lemma synchronous_failure_stalls_job:
  "started (run throwRun (construct sampleEnv ''p'' ''1'')) = [VersionCheck]
   \<and> jobRuntime (run throwRun (construct sampleEnv ''p'' ''1'')) VersionCheck = Some True
   \<and> timers (run throwRun (construct sampleEnv ''p'' ''1'')) VersionCheck = None
   \<and> pending (run throwRun (construct sampleEnv ''p'' ''1'')) = []
   \<and> stalled VersionCheck (run throwRun (construct sampleEnv ''p'' ''1''))"
  by (simp add: eval_defs stalled_def inFlight_def inits_def)

lemma stalled_job_never_runs_again:
  "Init \<notin> set evs \<Longrightarrow>
   count_list (started (run evs (run throwRun (construct sampleEnv ''p'' ''1'')))) VersionCheck = 1"
  using stalled_run[of VersionCheck "run throwRun (construct sampleEnv ''p'' ''1'')" evs]
    synchronous_failure_stalls_job by simp

text \<open>
  Claim C7 as stated fails by design where a timer is already pending when the body
  completes: a trigger skipped during the run has armed it, and the completion arms
  nothing. Here the flush completes at time 4000 and the job stays scheduled by the timer
  armed at time 3000.
\<close>

theorem C7_counterexample:
  "now (run (flushRun @ [Response 0 (Resolved None), Elapse 1000, Response 0 (Resolved None),
                         Continue 0]) (construct sampleEnv ''p'' ''1'')) = 4000
   \<and> jobRuntime (run (flushRun @ [Response 0 (Resolved None), Elapse 1000,
                         Response 0 (Resolved None), Continue 0]) (construct sampleEnv ''p'' ''1'')) ReportError
       = Some False
   \<and> timers (run (flushRun @ [Response 0 (Resolved None), Elapse 1000,
                         Response 0 (Resolved None), Continue 0]) (construct sampleEnv ''p'' ''1'')) ReportError
       = Some \<lparr>armedAt = 3000, delayMs = Finite 3000\<rparr>"
  by (simp add: eval_defs)

text \<open>
  Claim C7, amended. In every state a client can reach, for every execution of a job
  body in flight: a failed request is caught, it settles the body's promise just as a
  success does and is passed on to nobody. When the settled execution completes, the
  job's running flag is cleared and no body is invoked; on an open client the job is then
  scheduled: by a fresh timer for its configured interval, armed at the moment of
  completion, unless a timer armed during the run is still pending, which is kept; on a
  closed client no timer is armed. (What happens when the invocation of the body itself
  raises is left out; see the lemma above.)
\<close>

theorem C7_completion_rearms:
  assumes "s = run evs (construct e nm ver)" and "i < length (pending s)"
  shows "(pending s ! i = Exec n rest True \<longrightarrow>
            response i Rejected s = s\<lparr>pending := (pending s)[i := Exec n [] False]\<rparr>)
     \<and> (pending s ! i = Exec n rest False \<longrightarrow>
            jobRuntime (continue i s) n = Some False
          \<and> started (continue i s) = started s
          \<and> (\<exists>job. jobs s n = Some job
               \<and> (\<not> closed s \<longrightarrow>
                    timers (continue i s) n =
                      (if timers s n = None
                       then Some \<lparr>armedAt = now s, delayMs = multiply (seconds job) (Finite 1000)\<rparr>
                       else timers s n))
               \<and> (closed s \<longrightarrow> timers (continue i s) n = None)))"
proof -
  have wf: "wfJob s n" unfolding assms(1) by (rule wfD[OF wf_run[OF wellFormed_construct]])
  have a: "response i Rejected s = s\<lparr>pending := (pending s)[i := Exec n [] False]\<rparr>"
    if "pending s ! i = Exec n rest True"
    using that assms(2) by (cases n) (simp_all add: response_def setTask_def)
  have b: "jobRuntime (continue i s) n = Some False
          \<and> started (continue i s) = started s
          \<and> (\<exists>job. jobs s n = Some job
               \<and> (\<not> closed s \<longrightarrow>
                    timers (continue i s) n =
                      (if timers s n = None
                       then Some \<lparr>armedAt = now s, delayMs = multiply (seconds job) (Finite 1000)\<rparr>
                       else timers s n))
               \<and> (closed s \<longrightarrow> timers (continue i s) n = None))"
    if ex: "pending s ! i = Exec n rest False"
  proof -
    have "0 < inFlight n s" using assms(2) ex by (simp add: inFlight_pos_nth)
    then obtain job where job: "jobs s n = Some job" and en: "enabled (jobConfigs s n)"
      using wf by (auto simp: wfJob_def)
    have cl: "closed s \<Longrightarrow> timers s n = None" using wf by (auto simp: wfJob_def)
    have c: "continue i s = runJob n False ((dropTask i s)\<lparr>jobRuntime := (jobRuntime (dropTask i s))(n := Some False)\<rparr>)"
      using assms(2) ex by (simp add: continue_def complete_def)
    show ?thesis
      unfolding c using job en cl
      by (auto simp: runJob_def dropTask_def armTimer_eq)
  qed
  show ?thesis using a b by blast
qed

theorem C7_witness:
  "jobRuntime (continue 0 (run (initRun @ [AcceptError (Thrown None ''a''), Response 0 Rejected])
                 (construct sampleEnv ''p'' ''1''))) ReportError = Some False
   \<and> timers (continue 0 (run (initRun @ [AcceptError (Thrown None ''a''), Response 0 Rejected])
                 (construct sampleEnv ''p'' ''1''))) ReportError
       = Some \<lparr>armedAt = 0, delayMs = Finite 3000\<rparr>
   \<and> pending (response 0 Rejected (run (initRun @ [AcceptError (Thrown None ''a'')])
                 (construct sampleEnv ''p'' ''1''))) = [Exec ReportError [] False]"
proof -
  define s0 where "s0 = run (initRun @ [AcceptError (Thrown None ''a'')]) (construct sampleEnv ''p'' ''1'')"
  define s where "s = run (initRun @ [AcceptError (Thrown None ''a''), Response 0 Rejected]) (construct sampleEnv ''p'' ''1'')"
  have f0: "pending s0 = [Exec ReportError [] True]"
    unfolding s0_def by (simp add: eval_defs)
  have f: "pending s = [Exec ReportError [] False]" "\<not> closed s" "timers s ReportError = None"
    "jobs s ReportError = Some \<lparr>jobName = ReportError, seconds = Finite 3, cb = ReportError,
                                 preScheduleCb = Some ResetFirstError\<rparr>" "now s = 0"
    unfolding s_def by (simp_all add: eval_defs)
  have r0: "s0 = run (initRun @ [AcceptError (Thrown None ''a'')]) (construct sampleEnv ''p'' ''1'')"
    by (simp add: s0_def)
  have r: "s = run (initRun @ [AcceptError (Thrown None ''a''), Response 0 Rejected]) (construct sampleEnv ''p'' ''1'')"
    by (simp add: s_def)
  have l0: "0 < length (pending s0)" and l: "0 < length (pending s)" by (simp_all add: f0 f)
  have "jobRuntime (continue 0 s) ReportError = Some False
      \<and> timers (continue 0 s) ReportError = Some \<lparr>armedAt = 0, delayMs = Finite 3000\<rparr>"
    using C7_completion_rearms[OF r l, of ReportError "[]"] f by (simp add: multiply_small)
  moreover have "pending (response 0 Rejected s0) = [Exec ReportError [] False]"
    using C7_completion_rearms[OF r0 l0, of ReportError "[]"] f0 by simp
  ultimately show ?thesis unfolding s_def s0_def by blast
qed

end
